theory Spec2Isabelle
  imports Complex_Main "HOL-Library.AList"
begin

section \<open>The parameter builder of manager.py\<close>

text \<open>
  The module turns a list of station descriptions into the parameter dictionary of a
  queueing simulation. Every function of the module is embedded below as a HOL function.
  Python dictionaries are association lists with distinct keys in insertion order
  (\<open>AList.update\<close> overwrites in place or appends, as \<open>d[k] = v\<close> does); exceptions are
  values of the type \<open>error\<close>, returned as \<open>Inl\<close>.

  Python's floating-point numbers are the type parameter \<open>'a\<close>. The module adds routing
  probabilities, compares their total with \<open>1.0\<close> and writes \<open>0.0\<close> into a matrix, so
  the functions that do this ask for a type with \<open>0\<close>, \<open>1\<close>, \<open>+\<close> and \<open><\<close>, and
  nothing is assumed of these operations: the addition may round, as that of IEEE doubles
  does, and the statements below hold of it. The builtin \<open>float\<close>, which reads the argument
  tokens of a distribution, is a parameter \<open>pf\<close> of the parser: \<open>pf a = None\<close> stands for
  \<open>float(a)\<close> raising.
\<close>

subsection \<open>Errors and data\<close>

datatype error =
    UnsupportedDistribution string
  | ArgumentCount string nat nat
  | FloatError string
  | KeyError string
  | ProbabilityOverflow string
  | DuplicateStationName string

datatype 'a distribution = NoArrivals | Dist string "'a list"

datatype capacity = Cap int | Unbounded

record 'a conn =
  target :: string
  prob :: 'a

record 'a customer =
  c_class :: int
  c_dist :: "string option"
  c_service :: "string option"
  c_connections :: "'a conn list option"

record 'a station =
  s_name :: string
  s_capacity :: capacity
  s_servers :: int
  s_customers :: "'a customer list"

type_synonym 'a edge = "string \<times> string \<times> 'a"

record 'a customer_dists =
  arrival :: "(string \<times> 'a distribution) list"
  service :: "(string \<times> 'a distribution) list"
  connections :: "(string \<times> 'a edge list) list"

record 'a node =
  n_name :: string
  n_capacity :: capacity
  n_arrivals :: "(string \<times> 'a distribution) list"
  n_service :: "(string \<times> 'a distribution) list"
  n_servers :: int
  n_connections :: "(string \<times> 'a edge list) list"

record 'a loop_state =
  current_node :: nat
  names_to_nodes :: "(string \<times> nat) list"
  servers_acc :: "int list"
  capacities_acc :: "capacity list"
  arrivals_acc :: "(string \<times> 'a distribution list) list"
  services_acc :: "(string \<times> 'a distribution list) list"
  connections_acc :: "(string \<times> 'a edge list) list"

record 'a params =
  Arrival_distributions :: "(string \<times> 'a distribution list) list"
  Number_of_nodes :: nat
  Number_of_servers :: "int list"
  Queue_capacities :: "capacity list"
  Service_distributions :: "(string \<times> 'a distribution list) list"
  Transition_matrices :: "(string \<times> 'a list list) list"

subsection \<open>parse_distribution\<close>

definition distributions :: "(string \<times> nat) list" where
  "distributions =
     [(''Exponential'', 1), (''Uniform'', 2), (''Deterministic'', 1), (''Triangular'', 3),
      (''Gamma'', 2), (''Lognormal'', 2), (''Weibull'', 1), (''NoArrivals'', 0)]"

text \<open>
  \<open>s.split(' ')\<close> cuts at every single space and never returns an empty list, so the model
  returns the first segment and the list of the others (\<open>segments[0]\<close>, \<open>segments[1:]\<close>).
\<close>

fun split_space :: "string \<Rightarrow> string \<times> string list" where
  "split_space [] = ([], [])"
| "split_space (c # cs) =
     (case split_space cs of
        (w, ws) \<Rightarrow> if c = CHR '' '' then ([], w # ws) else (c # w, ws))"

text \<open>\<open>[float(a) for a in args]\<close>: the first token that \<open>float\<close> rejects raises.\<close>

fun float_args :: "(string \<Rightarrow> 'a option) \<Rightarrow> string list \<Rightarrow> error + 'a list" where
  "float_args pf [] = Inr []"
| "float_args pf (a # as) =
     (case pf a of
        None \<Rightarrow> Inl (FloatError a)
      | Some x \<Rightarrow> (case float_args pf as of Inl e \<Rightarrow> Inl e | Inr xs \<Rightarrow> Inr (x # xs)))"

definition parse_distribution :: "(string \<Rightarrow> 'a option) \<Rightarrow> string \<Rightarrow> error + 'a distribution" where
  "parse_distribution pf s =
     (case split_space s of
        (dname, args) \<Rightarrow>
          (case map_of distributions dname of
             None \<Rightarrow> Inl (UnsupportedDistribution dname)
           | Some n \<Rightarrow>
               if length args \<noteq> n then Inl (ArgumentCount dname n (length args))
               else (case float_args pf args of
                       Inl e \<Rightarrow> Inl e
                     | Inr xs \<Rightarrow>
                         if dname = ''NoArrivals'' then Inr NoArrivals else Inr (Dist dname xs))))"

subsection \<open>parse_connections\<close>

text \<open>
  The loop of \<open>parse_connections\<close>, with its two accumulators: \<open>total_prob\<close> starts at
  \<open>0\<close> and each probability is added to it in the order of the list, with the addition of
  the number type.
\<close>

fun connections_loop ::
  "('a::plus) conn list \<Rightarrow> string \<Rightarrow> 'a \<times> 'a edge list \<Rightarrow> 'a \<times> 'a edge list" where
  "connections_loop [] current_name acc = acc"
| "connections_loop (c # cs) current_name (total_prob, connect) =
     connections_loop cs current_name
       (total_prob + prob c, connect @ [(current_name, target c, prob c)])"

definition parse_connections ::
  "('a::{zero,one,plus,ord}) conn list \<Rightarrow> string \<Rightarrow> error + 'a edge list" where
  "parse_connections cs current_name =
     (case connections_loop cs current_name (0, []) of
        (total_prob, connect) \<Rightarrow>
          if total_prob > 1 then Inl (ProbabilityOverflow current_name) else Inr connect)"

subsection \<open>parse_customers and parse_station\<close>

text \<open>\<open>'Class %i' % n\<close>: the decimal rendering of the class identifier.\<close>

fun digits :: "nat \<Rightarrow> string" where
  "digits n =
     (if n < 10 then [''0123456789'' ! n]
      else digits (n div 10) @ [''0123456789'' ! (n mod 10)])"

declare digits.simps [simp del]

definition class_key :: "int \<Rightarrow> string" where
  "class_key i = ''Class '' @ (if i < 0 then CHR ''-'' # digits (nat (- i)) else digits (nat i))"

text \<open>
  The \<open>try\<close>/\<open>except\<close> around the arrival specification: a missing \<open>'dist'\<close> key and
  every error of \<open>parse_distribution\<close> are caught by the bare \<open>except\<close>.
\<close>

definition arrival_of :: "(string \<Rightarrow> 'a option) \<Rightarrow> 'a customer \<Rightarrow> 'a distribution" where
  "arrival_of pf c =
     (case c_dist c of
        None \<Rightarrow> NoArrivals
      | Some s \<Rightarrow> (case parse_distribution pf s of Inl e \<Rightarrow> NoArrivals | Inr d \<Rightarrow> d))"

definition service_of :: "(string \<Rightarrow> 'a option) \<Rightarrow> 'a customer \<Rightarrow> error + 'a distribution" where
  "service_of pf c =
     (case c_service c of
        None \<Rightarrow> Inl (KeyError ''service'')
      | Some s \<Rightarrow> parse_distribution pf s)"

definition conns_of ::
  "('a::{zero,one,plus,ord}) customer \<Rightarrow> string \<Rightarrow> error + 'a edge list" where
  "conns_of c current_name =
     (case c_connections c of
        None \<Rightarrow> Inr []
      | Some cs \<Rightarrow> parse_connections cs current_name)"

text \<open>The loop over the customers, with the four lists it appends to.\<close>

fun customers_loop ::
  "(string \<Rightarrow> ('a::{zero,one,plus,ord}) option) \<Rightarrow> string \<Rightarrow> 'a customer list \<Rightarrow>
   string list \<times> 'a distribution list \<times> 'a distribution list \<times> 'a edge list list \<Rightarrow>
   error +
   (string list \<times> 'a distribution list \<times> 'a distribution list \<times> 'a edge list list)" where
  "customers_loop pf current_name [] acc = Inr acc"
| "customers_loop pf current_name (c # cs) (keys, dists, serv_dists, conn_lists) =
     (case service_of pf c of
        Inl e \<Rightarrow> Inl e
      | Inr sd \<Rightarrow>
          (case conns_of c current_name of
             Inl e \<Rightarrow> Inl e
           | Inr conns \<Rightarrow>
               customers_loop pf current_name cs
                 (keys @ [class_key (c_class c)], dists @ [arrival_of pf c],
                  serv_dists @ [sd], conn_lists @ [conns])))"

text \<open>\<open>dict(zip(keys, values))\<close>: pairs are stored in order, a later pair replaces an earlier one.\<close>

definition dict_zip :: "'k list \<Rightarrow> 'v list \<Rightarrow> ('k \<times> 'v) list" where
  "dict_zip ks vs = fold (\<lambda>(k, v). AList.update k v) (zip ks vs) []"

definition parse_customers ::
  "(string \<Rightarrow> ('a::{zero,one,plus,ord}) option) \<Rightarrow> 'a customer list \<Rightarrow> string \<Rightarrow>
   error + 'a customer_dists" where
  "parse_customers pf customers current_name =
     (case customers_loop pf current_name customers ([], [], [], []) of
        Inl e \<Rightarrow> Inl e
      | Inr (keys, dists, serv_dists, conn_lists) \<Rightarrow>
          Inr \<lparr>arrival = dict_zip keys dists,
               service = dict_zip keys serv_dists,
               connections = dict_zip keys conn_lists\<rparr>)"

definition parse_station ::
  "(string \<Rightarrow> ('a::{zero,one,plus,ord}) option) \<Rightarrow> 'a station \<Rightarrow> error + 'a node" where
  "parse_station pf st =
     (case parse_customers pf (s_customers st) (s_name st) of
        Inl e \<Rightarrow> Inl e
      | Inr dists \<Rightarrow>
          Inr \<lparr>n_name = s_name st, n_capacity = s_capacity st, n_arrivals = arrival dists,
               n_service = service dists, n_servers = s_servers st,
               n_connections = connections dists\<rparr>)"

subsection \<open>update_distributions and update_connections\<close>

text \<open>
  First loop of \<open>update_distributions\<close>: a key that is new gets \<open>current_node - 1\<close>
  placeholders, then the new value is appended to the key's list.
\<close>

fun merge_new ::
  "(string \<times> 'a distribution list) list \<Rightarrow> (string \<times> 'a distribution) list \<Rightarrow> nat \<Rightarrow>
   (string \<times> 'a distribution list) list" where
  "merge_new existing [] current = existing"
| "merge_new existing ((new_key, v) # new) current =
     merge_new
       (case map_of existing new_key of
          None \<Rightarrow> AList.update new_key (replicate (current - 1) NoArrivals @ [v]) existing
        | Some xs \<Rightarrow> AList.update new_key (xs @ [v]) existing)
       new current"

text \<open>Second loop: every list whose length is not the current node gets one placeholder.\<close>

definition back_fill ::
  "(string \<times> 'a distribution list) list \<Rightarrow> nat \<Rightarrow> (string \<times> 'a distribution list) list" where
  "back_fill existing current =
     map (\<lambda>(k, xs). (k, if length xs \<noteq> current then xs @ [NoArrivals] else xs)) existing"

definition update_distributions ::
  "(string \<times> 'a distribution list) list \<Rightarrow> (string \<times> 'a distribution) list \<Rightarrow> nat \<Rightarrow>
   (string \<times> 'a distribution list) list" where
  "update_distributions existing new current = back_fill (merge_new existing new current) current"

fun update_connections ::
  "(string \<times> 'a edge list) list \<Rightarrow> (string \<times> 'a edge list) list \<Rightarrow>
   (string \<times> 'a edge list) list" where
  "update_connections existing [] = existing"
| "update_connections existing ((new_key, es) # new) =
     update_connections
       (case map_of existing new_key of
          None \<Rightarrow> AList.update new_key es existing
        | Some old \<Rightarrow> AList.update new_key (old @ es) existing)
       new"

subsection \<open>The directed graph of networkx\<close>

text \<open>
  \<open>nx.DiGraph\<close>, \<open>add_edges_from\<close> and \<open>to_numpy_matrix\<close> belong to the networkx library,
  which the module imports. They are modelled from the behaviour of the library: a
  \<open>DiGraph\<close> keeps its nodes in the order in which they were first added and holds at most
  one edge for an ordered pair of nodes, adding an edge that exists updates its attribute
  dictionary, and \<open>to_numpy_matrix\<close> without a node list has one row and one column for
  every node of the graph, in the graph's node order, with \<open>0.0\<close> where there is no edge.
\<close>

record 'a digraph =
  nodes :: "nat list"
  adj :: "((nat \<times> nat) \<times> 'a) list"

definition empty_graph :: "'a digraph" where
  "empty_graph = \<lparr>nodes = [], adj = []\<rparr>"

definition add_node :: "nat \<Rightarrow> nat list \<Rightarrow> nat list" where
  "add_node x ns = (if x \<in> set ns then ns else ns @ [x])"

definition add_edge :: "nat \<times> nat \<times> 'a \<Rightarrow> 'a digraph \<Rightarrow> 'a digraph" where
  "add_edge e g =
     (case e of (u, v, w) \<Rightarrow>
        \<lparr>nodes = add_node v (add_node u (nodes g)), adj = AList.update (u, v) w (adj g)\<rparr>)"

definition add_edges_from :: "(nat \<times> nat \<times> 'a) list \<Rightarrow> 'a digraph \<Rightarrow> 'a digraph" where
  "add_edges_from es g = fold add_edge es g"

definition weight_of :: "('a::zero) digraph \<Rightarrow> nat \<Rightarrow> nat \<Rightarrow> 'a" where
  "weight_of g u v = (case map_of (adj g) (u, v) of None \<Rightarrow> 0 | Some w \<Rightarrow> w)"

definition to_numpy_matrix :: "('a::zero) digraph \<Rightarrow> 'a list list" where
  "to_numpy_matrix g = map (\<lambda>u. map (\<lambda>v. weight_of g u v) (nodes g)) (nodes g)"

subsection \<open>build_params\<close>

definition init_state :: "'a loop_state" where
  "init_state =
     \<lparr>current_node = 0, names_to_nodes = [], servers_acc = [], capacities_acc = [],
      arrivals_acc = [], services_acc = [], connections_acc = []\<rparr>"

text \<open>One turn of the loop over the stations.\<close>

definition process_station ::
  "(string \<Rightarrow> ('a::{zero,one,plus,ord}) option) \<Rightarrow> 'a station \<Rightarrow> 'a loop_state \<Rightarrow>
   error + 'a loop_state" where
  "process_station pf st s =
     (let current = current_node s + 1 in
      case parse_station pf st of
        Inl e \<Rightarrow> Inl e
      | Inr node \<Rightarrow>
          if n_name node \<in> set (map fst (names_to_nodes s))
          then Inl (DuplicateStationName (n_name node))
          else Inr \<lparr>current_node = current,
                    names_to_nodes = AList.update (n_name node) current (names_to_nodes s),
                    servers_acc = servers_acc s @ [n_servers node],
                    capacities_acc = capacities_acc s @ [n_capacity node],
                    arrivals_acc = update_distributions (arrivals_acc s) (n_arrivals node) current,
                    services_acc = update_distributions (services_acc s) (n_service node) current,
                    connections_acc = update_connections (connections_acc s) (n_connections node)\<rparr>)"

fun station_loop ::
  "(string \<Rightarrow> ('a::{zero,one,plus,ord}) option) \<Rightarrow> 'a station list \<Rightarrow> 'a loop_state \<Rightarrow>
   error + 'a loop_state" where
  "station_loop pf [] s = Inr s"
| "station_loop pf (st # sts) s =
     (case process_station pf st s of
        Inl e \<Rightarrow> Inl e
      | Inr s' \<Rightarrow> station_loop pf sts s')"

text \<open>
  The \<open>map\<close> with the two lookups in \<open>names_to_nodes\<close>; a name that is not a key raises
  \<open>KeyError\<close>, the source name being looked up first.
\<close>

fun resolve ::
  "(string \<times> nat) list \<Rightarrow> 'a edge list \<Rightarrow> error + (nat \<times> nat \<times> 'a) list" where
  "resolve names [] = Inr []"
| "resolve names ((a, b, p) # ts) =
     (case map_of names a of
        None \<Rightarrow> Inl (KeyError a)
      | Some u \<Rightarrow>
          (case map_of names b of
             None \<Rightarrow> Inl (KeyError b)
           | Some v \<Rightarrow>
               (case resolve names ts of
                  Inl e \<Rightarrow> Inl e
                | Inr es \<Rightarrow> Inr ((u, v, p) # es))))"

definition class_matrix ::
  "(string \<times> nat) list \<Rightarrow> nat \<Rightarrow> ('a::zero) edge list \<Rightarrow> error + 'a list list" where
  "class_matrix names num_nodes c =
     (if length c > 0
      then (case resolve names c of
              Inl e \<Rightarrow> Inl e
            | Inr es \<Rightarrow> Inr (to_numpy_matrix (add_edges_from es empty_graph)))
      else Inr (replicate num_nodes (replicate num_nodes 0)))"

fun build_matrices ::
  "(string \<times> nat) list \<Rightarrow> nat \<Rightarrow> (string \<times> ('a::zero) edge list) list \<Rightarrow>
   (string \<times> 'a list list) list \<Rightarrow> error + (string \<times> 'a list list) list" where
  "build_matrices names num_nodes [] matrices = Inr matrices"
| "build_matrices names num_nodes ((key, c) # rest) matrices =
     (case class_matrix names num_nodes c of
        Inl e \<Rightarrow> Inl e
      | Inr m \<Rightarrow> build_matrices names num_nodes rest (AList.update key m matrices))"

definition build_params ::
  "(string \<Rightarrow> ('a::{zero,one,plus,ord}) option) \<Rightarrow> 'a station list \<Rightarrow> error + 'a params" where
  "build_params pf stations =
     (case station_loop pf stations init_state of
        Inl e \<Rightarrow> Inl e
      | Inr s \<Rightarrow>
          (case build_matrices (names_to_nodes s) (length stations) (connections_acc s) [] of
             Inl e \<Rightarrow> Inl e
           | Inr matrices \<Rightarrow>
               Inr \<lparr>Arrival_distributions = arrivals_acc s,
                    Number_of_nodes = length stations,
                    Number_of_servers = servers_acc s,
                    Queue_capacities = capacities_acc s,
                    Service_distributions = services_acc s,
                    Transition_matrices = matrices\<rparr>))"

subsection \<open>Notions used in the statements\<close>

text \<open>
  The value of \<open>total_prob\<close> when the loop of \<open>parse_connections\<close> ends: the
  probabilities added from the left, starting from \<open>0\<close>.
\<close>

definition running_total :: "('a::{zero,plus}) conn list \<Rightarrow> 'a" where
  "running_total cs = foldl (+) 0 (map prob cs)"

text \<open>
  A customer entry is accepted when its service specification parses and its connections
  pass \<open>parse_connections\<close>; its arrival specification fails when the \<open>'dist'\<close> key is
  missing or \<open>parse_distribution\<close> raises.
\<close>

definition entry_ok ::
  "(string \<Rightarrow> ('a::{zero,one,plus,ord}) option) \<Rightarrow> string \<Rightarrow> 'a customer \<Rightarrow> bool" where
  "entry_ok pf current_name c \<longleftrightarrow> \<not> isl (service_of pf c) \<and> \<not> isl (conns_of c current_name)"

definition arrival_fails :: "(string \<Rightarrow> 'a option) \<Rightarrow> 'a customer \<Rightarrow> bool" where
  "arrival_fails pf c \<longleftrightarrow>
     (case c_dist c of None \<Rightarrow> True | Some s \<Rightarrow> isl (parse_distribution pf s))"

text \<open>
  The calls of \<open>update_distributions\<close> that the loop of \<open>build_params\<close> makes for one of
  its two dictionaries, station after station, and the value that a station gives a class
  (the placeholder when the station does not mention the class).
\<close>

fun merge_all ::
  "(string \<times> 'a distribution list) list \<Rightarrow> (string \<times> 'a distribution) list list \<Rightarrow> nat \<Rightarrow>
   (string \<times> 'a distribution list) list" where
  "merge_all existing [] n = existing"
| "merge_all existing (new # news) n =
     merge_all (update_distributions existing new (n + 1)) news (n + 1)"

definition value_at :: "(string \<times> 'a distribution) list \<Rightarrow> string \<Rightarrow> 'a distribution" where
  "value_at new k = (case map_of new k of None \<Rightarrow> NoArrivals | Some v \<Rightarrow> v)"


subsection \<open>Example data\<close>

text \<open>
  The examples take the real numbers for the number type. The totals they add (0, 0.5, 1
  and 1.5) lie on the same side of 1 when the addition is that of doubles.

  The values of \<open>float\<close> on the argument tokens that the examples use:
\<close>

definition example_float :: "string \<Rightarrow> real option" where
  "example_float a =
     (if a = ''1.0'' then Some 1 else if a = ''2.0'' then Some 2
      else if a = ''5.0'' then Some 5 else None)"

text \<open>Small networks: every station serves class 1.\<close>

definition customer_1 :: "real conn list option \<Rightarrow> real customer" where
  "customer_1 cs =
     \<lparr>c_class = 1, c_dist = Some ''Exponential 2.0'', c_service = Some ''Exponential 5.0'',
      c_connections = cs\<rparr>"

definition station_of :: "string \<Rightarrow> real customer list \<Rightarrow> real station" where
  "station_of nm cs = \<lparr>s_name = nm, s_capacity = Cap 10, s_servers = 1, s_customers = cs\<rparr>"



definition sparse_network :: "real station list" where
  "sparse_network =
     [station_of ''A'' [customer_1 (Some [\<lparr>target = ''B'', prob = 1/2\<rparr>])],
      station_of ''B'' [customer_1 None],
      station_of ''C'' [customer_1 None]]"

text \<open>
  A network in which each class is defined at one station only, the parameters the
  builder returns for it, and two customer entries: one whose arrival specification
  names no distribution of the registry, one whose service specification lacks its
  argument.
\<close>

definition customer_2 :: "real customer" where
  "customer_2 =
     \<lparr>c_class = 2, c_dist = Some ''Exponential 2.0'', c_service = Some ''Exponential 5.0'',
      c_connections = None\<rparr>"

definition two_class_network :: "real station list" where
  "two_class_network = [station_of ''A'' [customer_1 None], station_of ''B'' [customer_2]]"

definition two_class_params :: "real params" where
  "two_class_params =
     \<lparr>Arrival_distributions =
        [(''Class 1'', [Dist ''Exponential'' [2], NoArrivals]),
         (''Class 2'', [NoArrivals, Dist ''Exponential'' [2]])],
      Number_of_nodes = 2, Number_of_servers = [1, 1],
      Queue_capacities = [Cap 10, Cap 10],
      Service_distributions =
        [(''Class 1'', [Dist ''Exponential'' [5], NoArrivals]),
         (''Class 2'', [NoArrivals, Dist ''Exponential'' [5]])],
      Transition_matrices = [(''Class 1'', [[0, 0], [0, 0]]), (''Class 2'', [[0, 0], [0, 0]])]\<rparr>"

definition silent_entry :: "real customer" where
  "silent_entry =
     \<lparr>c_class = 1, c_dist = Some ''Bogus'', c_service = Some ''Deterministic 1.0'',
      c_connections = None\<rparr>"

definition unserved_entry :: "real customer" where
  "unserved_entry =
     \<lparr>c_class = 1, c_dist = Some ''Exponential 2.0'', c_service = Some ''Exponential'',
      c_connections = None\<rparr>"

text \<open>Two stations named A, the second with the entry that lacks its service argument.\<close>

definition repeated_unserved_network :: "real station list" where
  "repeated_unserved_network =
     [station_of ''A'' [customer_1 None], station_of ''A'' [unserved_entry]]"

section \<open>Properties\<close>

text \<open>The definitions that evaluate the builder on a concrete network.\<close>

lemmas eval_defs =
  build_params_def init_state_def process_station_def parse_station_def parse_customers_def
  service_of_def conns_of_def arrival_of_def parse_connections_def parse_distribution_def
  distributions_def dict_zip_def class_key_def digits.simps update_distributions_def
  back_fill_def class_matrix_def add_edges_from_def add_edge_def add_node_def empty_graph_def
  to_numpy_matrix_def weight_of_def example_float_def customer_1_def station_of_def
  customer_2_def two_class_network_def two_class_params_def silent_entry_def unserved_entry_def

subsection \<open>parse_connections\<close>

lemma connections_loop_eq:
  "connections_loop cs name (t, acc) =
     (foldl (+) t (map prob cs), acc @ map (\<lambda>c. (name, target c, prob c)) cs)"
  by (induction cs arbitrary: t acc) simp_all

lemma parse_connections_eq:
  "parse_connections cs name =
     (if 1 < running_total cs then Inl (ProbabilityOverflow name)
      else Inr (map (\<lambda>c. (name, target c, prob c)) cs))"
  by (simp add: parse_connections_def connections_loop_eq running_total_def)

text \<open>
  Claim C4. \<open>parse_connections\<close> raises the probability-overflow error, which names the
  station, exactly when the total of the routing probabilities of the list, as the loop
  accumulates it, is strictly greater than 1, and it raises nothing else; a total that is
  not greater than 1, so also a total of exactly 1, returns one edge record for every
  target, in the order of the input. The statement holds for every addition and
  comparison of the number type, so for the rounding addition of doubles.
\<close>

theorem parse_connections_overflow_iff:
  "(parse_connections (cs :: ('a::{zero,one,plus,ord}) conn list) name =
      Inl (ProbabilityOverflow name) \<longleftrightarrow> 1 < running_total cs) \<and>
   (\<forall>e. parse_connections cs name = Inl e \<longrightarrow>
        e = ProbabilityOverflow name \<and> 1 < running_total cs) \<and>
   (\<not> 1 < running_total cs \<longrightarrow>
      parse_connections cs name = Inr (map (\<lambda>c. (name, target c, prob c)) cs)) \<and>
   (running_total cs = 1 \<and> \<not> (1::'a) < 1 \<longrightarrow>
      parse_connections cs name = Inr (map (\<lambda>c. (name, target c, prob c)) cs))"
  by (simp add: parse_connections_eq)

theorem parse_connections_overflow_iff_witness:
  "parse_connections [\<lparr>target = ''B'', prob = 1/2\<rparr>, \<lparr>target = ''C'', prob = 1/2 :: real\<rparr>] ''A'' =
     Inr [(''A'', ''B'', 1/2), (''A'', ''C'', 1/2)] \<and>
   parse_connections [\<lparr>target = ''B'', prob = 1\<rparr>, \<lparr>target = ''C'', prob = 1/2 :: real\<rparr>] ''A'' =
     Inl (ProbabilityOverflow ''A'')"
proof -
  let ?ok = "[\<lparr>target = ''B'', prob = 1/2\<rparr>, \<lparr>target = ''C'', prob = 1/2 :: real\<rparr>]"
  let ?over = "[\<lparr>target = ''B'', prob = 1\<rparr>, \<lparr>target = ''C'', prob = 1/2 :: real\<rparr>]"
  have total_ok: "running_total ?ok = 1 \<and> \<not> (1::real) < 1" by (simp add: running_total_def)
  have total_over: "1 < running_total ?over" by (simp add: running_total_def)
  note ok = parse_connections_overflow_iff [of ?ok "''A''"]
  note over = parse_connections_overflow_iff [of ?over "''A''"]
  have "parse_connections ?ok ''A'' = Inr (map (\<lambda>c. (''A'', target c, prob c)) ?ok)"
    by (rule ok [THEN conjunct2, THEN conjunct2, THEN conjunct2, THEN mp, OF total_ok])
  moreover have "parse_connections ?over ''A'' = Inl (ProbabilityOverflow ''A'')"
    by (rule over [THEN conjunct1, THEN iffD2, OF total_over])
  ultimately show ?thesis by simp
qed

subsection \<open>parse_distribution\<close>

lemma split_space_no_rest: "snd (split_space s) = [] \<longleftrightarrow> CHR '' '' \<notin> set s"
  by (induction s) (auto split: prod.splits)

lemma split_space_no_space: "CHR '' '' \<notin> set s \<Longrightarrow> split_space s = (s, [])"
  by (induction s) (auto split: prod.splits)

lemma split_space_whole: "snd (split_space s) = [] \<Longrightarrow> fst (split_space s) = s"
  by (simp add: split_space_no_rest split_space_no_space)

lemma registry_NoArrivals: "map_of distributions ''NoArrivals'' = Some 0"
  by (simp add: distributions_def)

text \<open>
  Claim C7, as amended. When the first space-separated token of the specification is
  \<open>NoArrivals\<close>, \<open>parse_distribution\<close> returns the sentinel exactly when the specification
  is the string \<open>NoArrivals\<close> itself; with any further token (an empty one after a
  trailing space included) it fails with the argument-count error, since the registry
  gives \<open>NoArrivals\<close> no argument.
\<close>

theorem parse_distribution_NoArrivals:
  "fst (split_space s) = ''NoArrivals'' \<Longrightarrow>
   parse_distribution pf s =
     (if s = ''NoArrivals'' then Inr NoArrivals
      else Inl (ArgumentCount ''NoArrivals'' 0 (length (snd (split_space s)))))"
proof (cases "snd (split_space s) = []")
  case True
  assume h: "fst (split_space s) = ''NoArrivals''"
  with True have s: "s = ''NoArrivals''" using split_space_whole by fastforce
  have "split_space s = (''NoArrivals'', [])" using True h by (simp add: prod_eq_iff)
  then show ?thesis using s by (simp add: parse_distribution_def registry_NoArrivals)
next
  case False
  assume h: "fst (split_space s) = ''NoArrivals''"
  have ne: "s \<noteq> ''NoArrivals''"
  proof
    assume "s = ''NoArrivals''"
    then have "snd (split_space s) = []" by (simp add: split_space_no_rest)
    with False show False by simp
  qed
  obtain args where sp: "split_space s = (''NoArrivals'', args)" using h by (cases "split_space s") simp
  with False have "args \<noteq> []" by simp
  then show ?thesis using sp ne by (simp add: parse_distribution_def registry_NoArrivals)
qed

theorem parse_distribution_NoArrivals_witness:
  "parse_distribution example_float ''NoArrivals'' = Inr NoArrivals \<and>
   parse_distribution example_float ''NoArrivals 1.0'' = Inl (ArgumentCount ''NoArrivals'' 0 1)"
proof -
  have a: "fst (split_space ''NoArrivals'') = ''NoArrivals''" by simp
  have b: "fst (split_space ''NoArrivals 1.0'') = ''NoArrivals''" by simp
  have c: "snd (split_space ''NoArrivals 1.0'') = [''1.0'']" by simp
  show ?thesis
    using parse_distribution_NoArrivals [OF a, of example_float]
          parse_distribution_NoArrivals [OF b, of example_float] c
    by simp
qed

text \<open>
  Claim C7 as it is stated fails: the first token of \<open>NoArrivals 1.0\<close> is \<open>NoArrivals\<close>,
  and the parser does not return the sentinel.
\<close>

theorem parse_distribution_NoArrivals_with_argument:
  "fst (split_space ''NoArrivals 1.0'') = ''NoArrivals'' \<and>
   parse_distribution example_float ''NoArrivals 1.0'' \<noteq> Inr NoArrivals"
  by (simp add: parse_distribution_def registry_NoArrivals)

subsection \<open>The transition matrix of a class\<close>



lemma set_add_node: "set (add_node x ns) = insert x (set ns)"
  by (auto simp: add_node_def)

lemma distinct_add_node: "distinct ns \<Longrightarrow> distinct (add_node x ns)"
  by (simp add: add_node_def)

lemma nodes_add_edge: "set (nodes (add_edge (u, v, w) g)) = {u, v} \<union> set (nodes g)"
  by (auto simp: add_edge_def set_add_node)


lemma nodes_fold_add_edge:
  "set (nodes (fold add_edge es g)) = set (nodes g) \<union> (\<Union>e\<in>set es. {fst e, fst (snd e)})"
proof (induction es arbitrary: g)
  case Nil
  show ?case by simp
next
  case (Cons e es)
  obtain u v w where e: "e = (u, v, w)" by (cases e)
  show ?case unfolding e using Cons.IH [of "add_edge (u, v, w) g"]
    by (auto simp: nodes_add_edge)
qed

lemma distinct_nodes_fold:
  "distinct (nodes g) \<Longrightarrow> distinct (nodes (fold add_edge es g))"
proof (induction es arbitrary: g)
  case Nil
  then show ?case by simp
next
  case (Cons e es)
  obtain u v w where e: "e = (u, v, w)" by (cases e)
  have "distinct (nodes (add_edge (u, v, w) g))"
    using Cons.prems by (simp add: add_edge_def distinct_add_node)
  then show ?case unfolding e using Cons.IH by simp
qed



lemma length_to_numpy_matrix: "length (to_numpy_matrix g) = length (nodes g)"
  by (simp add: to_numpy_matrix_def)



lemma class_matrix_nonempty:
  "c \<noteq> [] \<Longrightarrow> resolve names c = Inr es \<Longrightarrow>
   class_matrix names n c = Inr (to_numpy_matrix (add_edges_from es empty_graph))"
  by (simp add: class_matrix_def)

text \<open>
  The matrix of a class with edges is square, and its dimension is the number of nodes
  that the edges of the class touch; the number of stations does not enter.
\<close>

lemma class_matrix_dimension:
  assumes "c \<noteq> []" and "resolve names c = Inr es" and "class_matrix names n c = Inr m"
  shows "length m = card (\<Union>e\<in>set es. {fst e, fst (snd e)})"
    and "\<forall>row\<in>set m. length row = length m"
proof -
  let ?g = "add_edges_from es empty_graph"
  have m: "m = to_numpy_matrix ?g" using assms by (simp add: class_matrix_nonempty)
  have "distinct (nodes ?g)"
    unfolding add_edges_from_def by (rule distinct_nodes_fold) (simp add: empty_graph_def)
  then have "length (nodes ?g) = card (set (nodes ?g))" by (simp add: distinct_card)
  also have "set (nodes ?g) = (\<Union>e\<in>set es. {fst e, fst (snd e)})"
    unfolding add_edges_from_def nodes_fold_add_edge by (simp add: empty_graph_def)
  finally show "length m = card (\<Union>e\<in>set es. {fst e, fst (snd e)})"
    by (simp add: m length_to_numpy_matrix)
  show "\<forall>row\<in>set m. length row = length m"
    by (simp add: m to_numpy_matrix_def)
qed









text \<open>
  Claim C1 at a network of three stations whose only edge goes from A to B: the matrix of
  class 1 has two rows and two columns, one for each node that an edge touches, although
  the network has three nodes. (A class without any edge gets the matrix of dimension
  \<open>num_nodes\<close> from the other branch of \<open>build_params\<close>.)
\<close>

theorem sparse_network_matrix:
  "build_params example_float sparse_network =
     Inr \<lparr>Arrival_distributions =
            [(''Class 1'', [Dist ''Exponential'' [2], Dist ''Exponential'' [2],
                            Dist ''Exponential'' [2]])],
          Number_of_nodes = 3, Number_of_servers = [1, 1, 1],
          Queue_capacities = [Cap 10, Cap 10, Cap 10],
          Service_distributions =
            [(''Class 1'', [Dist ''Exponential'' [5], Dist ''Exponential'' [5],
                            Dist ''Exponential'' [5]])],
          Transition_matrices = [(''Class 1'', [[0, 1/2], [0, 0]])]\<rparr>"
  by (simp add: eval_defs sparse_network_def)

subsection \<open>Class keys\<close>

lemma digit_chars_inj:
  "i < 10 \<Longrightarrow> j < 10 \<Longrightarrow> ''0123456789'' ! i = ''0123456789'' ! j \<Longrightarrow> i = j"
proof -
  assume i: "i < 10" and j: "j < 10" and e: "''0123456789'' ! i = ''0123456789'' ! j"
  have d: "distinct ''0123456789''" by simp
  have l: "length ''0123456789'' = 10" by simp
  show "i = j" using d e i j l by (metis nth_eq_iff_index_eq)
qed

lemma digits_small: "n < 10 \<Longrightarrow> digits n = [''0123456789'' ! n]"
  by (simp add: digits.simps)

lemma digits_large:
  "\<not> n < 10 \<Longrightarrow> digits n = digits (n div 10) @ [''0123456789'' ! (n mod 10)]"
  by (subst digits.simps) simp

lemma digits_nonempty: "digits n \<noteq> []"
  by (cases "n < 10") (simp_all add: digits_small digits_large)

lemma digits_length_small: "length (digits n) = Suc 0 \<longleftrightarrow> n < 10"
proof (cases "n < 10")
  case True then show ?thesis by (simp add: digits_small)
next
  case False
  have "digits (n div 10) \<noteq> []" by (rule digits_nonempty)
  then have "length (digits (n div 10)) \<noteq> 0" by simp
  then show ?thesis using False by (simp add: digits_large)
qed

lemma digits_inj: "digits a = digits b \<Longrightarrow> a = b"
proof (induction a arbitrary: b rule: less_induct)
  case (less a)
  show ?case
  proof (cases "a < 10")
    case True
    then have "length (digits a) = 1" by (simp add: digits_small)
    moreover have "length (digits b) = length (digits a)" using less.prems by simp
    ultimately have "length (digits b) = 1" by simp
    then have b: "b < 10" by (simp add: digits_length_small)
    with True less.prems show ?thesis by (simp add: digits_small digit_chars_inj)
  next
    case False
    then have "length (digits a) \<noteq> Suc 0" by (simp add: digits_length_small)
    then have b: "\<not> b < 10" using less.prems by (simp add: digits_length_small)
    from less.prems False b
    have e: "digits (a div 10) @ [''0123456789'' ! (a mod 10)] =
             digits (b div 10) @ [''0123456789'' ! (b mod 10)]"
      by (simp add: digits_large)
    then have e1: "digits (a div 10) = digits (b div 10)"
      and e2: "''0123456789'' ! (a mod 10) = ''0123456789'' ! (b mod 10)" by simp_all
    have "a div 10 < a" using False by simp
    then have d: "a div 10 = b div 10" using e1 by (rule less.IH)
    have m: "a mod 10 = b mod 10" using e2 by (simp add: digit_chars_inj)
    have "a = 10 * (a div 10) + a mod 10" by simp
    also have "\<dots> = 10 * (b div 10) + b mod 10" using d m by simp
    also have "\<dots> = b" by simp
    finally show ?thesis .
  qed
qed

lemma digit_char_not_minus: "i < 10 \<Longrightarrow> ''0123456789'' ! i \<noteq> CHR ''-''"
proof -
  assume "i < 10"
  then have "i < length ''0123456789''" by simp
  then have "''0123456789'' ! i \<in> set ''0123456789''" by (rule nth_mem)
  then show ?thesis by auto
qed

lemma hd_digits_not_minus: "hd (digits n) \<noteq> CHR ''-''"
proof (induction n rule: less_induct)
  case (less n)
  show ?case
  proof (cases "n < 10")
    case True then show ?thesis by (simp add: digits_small digit_char_not_minus)
  next
    case False
    then have "n div 10 < n" by simp
    then have "hd (digits (n div 10)) \<noteq> CHR ''-''" by (rule less.IH)
    then show ?thesis using False by (simp add: digits_large digits_nonempty)
  qed
qed

lemma class_key_inj: "class_key i = class_key j \<Longrightarrow> i = j"
proof -
  assume e: "class_key i = class_key j"
  have neg: "CHR ''-'' # digits a \<noteq> digits b" for a b
  proof
    assume "CHR ''-'' # digits a = digits b"
    then have "hd (digits b) = CHR ''-''" by (metis list.sel(1))
    then show False using hd_digits_not_minus by blast
  qed
  show "i = j"
  proof (cases "i < 0")
    case True
    show ?thesis
    proof (cases "j < 0")
      case j: True
      from e True j have "digits (nat (- i)) = digits (nat (- j))" by (simp add: class_key_def)
      then have "nat (- i) = nat (- j)" by (rule digits_inj)
      then show ?thesis using True j by simp
    next
      case j: False
      from e True j have "CHR ''-'' # digits (nat (- i)) = digits (nat j)" by (simp add: class_key_def)
      then show ?thesis using neg by blast
    qed
  next
    case False
    show ?thesis
    proof (cases "j < 0")
      case j: True
      from e False j have "CHR ''-'' # digits (nat (- j)) = digits (nat i)" by (simp add: class_key_def)
      then show ?thesis using neg by blast
    next
      case j: False
      from e False j have "digits (nat i) = digits (nat j)" by (simp add: class_key_def)
      then have "nat i = nat j" by (rule digits_inj)
      then show ?thesis using False j by simp
    qed
  qed
qed

subsection \<open>parse_customers\<close>

lemma entry_okD:
  "entry_ok pf name c \<Longrightarrow> \<exists>sd cn. service_of pf c = Inr sd \<and> conns_of c name = Inr cn"
  by (cases "service_of pf c"; cases "conns_of c name") (auto simp: entry_ok_def)

lemma customers_loop_ok:
  "\<forall>c\<in>set cs. entry_ok pf name c \<Longrightarrow>
   customers_loop pf name cs (ks, ds, ss, cl) =
     Inr (ks @ map (\<lambda>c. class_key (c_class c)) cs, ds @ map (arrival_of pf) cs,
          ss @ map (\<lambda>c. projr (service_of pf c)) cs,
          cl @ map (\<lambda>c. projr (conns_of c name)) cs)"
proof (induction cs arbitrary: ks ds ss cl)
  case Nil
  show ?case by simp
next
  case (Cons c cs)
  from Cons.prems have ok: "entry_ok pf name c" and rest: "\<forall>c\<in>set cs. entry_ok pf name c"
    by simp_all
  from ok have s: "service_of pf c = Inr (projr (service_of pf c))"
    and n: "conns_of c name = Inr (projr (conns_of c name))"
    by (simp_all add: entry_ok_def)
  have "customers_loop pf name (c # cs) (ks, ds, ss, cl) =
        customers_loop pf name cs
          (ks @ [class_key (c_class c)], ds @ [arrival_of pf c],
           ss @ [projr (service_of pf c)], cl @ [projr (conns_of c name)])"
    by (subst customers_loop.simps, subst s, subst n) simp
  then show ?case by (simp add: Cons.IH [OF rest])
qed


lemma customers_loop_error:
  "c \<in> set cs \<Longrightarrow> \<not> entry_ok pf name c \<Longrightarrow> isl (customers_loop pf name cs (ks, ds, ss, cl))"
proof (induction cs arbitrary: ks ds ss cl)
  case Nil
  then show ?case by simp
next
  case (Cons p cs)
  show ?case
  proof (cases "entry_ok pf name p")
    case True
    then obtain sd cn where p: "service_of pf p = Inr sd" "conns_of p name = Inr cn"
      using entry_okD by blast
    from True Cons.prems have "c \<in> set cs" by auto
    then show ?thesis using Cons.IH Cons.prems(2) p by simp
  next
    case False
    then show ?thesis by (auto simp: entry_ok_def split: sum.splits)
  qed
qed

lemma parse_customers_ok:
  "\<forall>c\<in>set cs. entry_ok pf name c \<Longrightarrow>
   parse_customers pf cs name =
     Inr \<lparr>arrival = dict_zip (map (\<lambda>c. class_key (c_class c)) cs) (map (arrival_of pf) cs),
          service = dict_zip (map (\<lambda>c. class_key (c_class c)) cs)
                      (map (\<lambda>c. projr (service_of pf c)) cs),
          connections = dict_zip (map (\<lambda>c. class_key (c_class c)) cs)
                          (map (\<lambda>c. projr (conns_of c name)) cs)\<rparr>"
  by (simp add: parse_customers_def customers_loop_ok)

lemma parse_customers_error:
  "c \<in> set cs \<Longrightarrow> \<not> entry_ok pf name c \<Longrightarrow> isl (parse_customers pf cs name)"
proof -
  assume "c \<in> set cs" "\<not> entry_ok pf name c"
  then have "isl (customers_loop pf name cs ([], [], [], []))" by (rule customers_loop_error)
  then show ?thesis by (auto simp: parse_customers_def split: sum.splits)
qed

lemma parse_customers_Inr_iff:
  "(\<exists>r. parse_customers pf cs name = Inr r) \<longleftrightarrow> (\<forall>c\<in>set cs. entry_ok pf name c)"
proof
  assume "\<exists>r. parse_customers pf cs name = Inr r"
  then have "\<not> isl (parse_customers pf cs name)" by auto
  then show "\<forall>c\<in>set cs. entry_ok pf name c" using parse_customers_error by blast
next
  assume "\<forall>c\<in>set cs. entry_ok pf name c"
  then show "\<exists>r. parse_customers pf cs name = Inr r" by (simp add: parse_customers_ok)
qed

lemma fold_update_other:
  "k \<notin> fst ` set ps \<Longrightarrow> map_of (fold (\<lambda>(k, v). AList.update k v) ps al) k = map_of al k"
  by (induction ps arbitrary: al) (auto simp: update_conv')

lemma fold_update_last:
  "k \<notin> fst ` set post \<Longrightarrow>
   map_of (fold (\<lambda>(k, v). AList.update k v) (pre @ (k, v) # post) al) k = Some v"
  by (simp add: fold_update_other update_conv')

lemma fold_update_keys:
  "fst ` set (fold (\<lambda>(k, v). AList.update k v) ps al) = fst ` set ps \<union> fst ` set al"
proof (induction ps arbitrary: al)
  case Nil
  show ?case by simp
next
  case (Cons p ps)
  have "fold (\<lambda>(k, v). AList.update k v) (p # ps) al =
        fold (\<lambda>(k, v). AList.update k v) ps (AList.update (fst p) (snd p) al)"
    by (cases p) simp
  then have "fst ` set (fold (\<lambda>(k, v). AList.update k v) (p # ps) al) =
        fst ` set ps \<union> fst ` set (AList.update (fst p) (snd p) al)"
    by (simp only: Cons.IH)
  also have "\<dots> = fst ` set ps \<union> ({fst p} \<union> fst ` set al)"
    by (simp only: dom_update)
  finally show ?case by auto
qed

lemma fold_update_distinct:
  "distinct (map fst al) \<Longrightarrow> distinct (map fst (fold (\<lambda>(k, v). AList.update k v) ps al))"
  by (induction ps arbitrary: al) (auto simp: distinct_update)

lemma zip_map_same: "zip (map f xs) (map g xs) = map (\<lambda>x. (f x, g x)) xs"
  by (induction xs) simp_all

lemma dict_zip_last:
  assumes "\<forall>x\<in>set post. f x \<noteq> f c"
  shows "map_of (dict_zip (map f (pre @ c # post)) (map g (pre @ c # post))) (f c) = Some (g c)"
proof -
  have "f c \<notin> fst ` set (map (\<lambda>x. (f x, g x)) post)" using assms by auto
  then have "map_of (fold (\<lambda>(k, v). AList.update k v)
               (map (\<lambda>x. (f x, g x)) pre @ (f c, g c) # map (\<lambda>x. (f x, g x)) post) []) (f c) =
             Some (g c)"
    by (rule fold_update_last)
  then show ?thesis by (simp add: dict_zip_def zip_map_same)
qed

lemma dict_zip_keys: "fst ` set (dict_zip (map f xs) (map g xs)) = f ` set xs"
  by (simp add: dict_zip_def zip_map_same fold_update_keys image_image)

lemma dict_zip_distinct: "distinct (map fst (dict_zip ks vs))"
  by (simp add: dict_zip_def fold_update_distinct)

text \<open>
  Claim C9. Two entries of one station with the same class identifier raise nothing: when
  every entry of the list is accepted, \<open>parse_customers\<close> returns, and in each of its
  three dictionaries the key of the class holds the arrival distribution, the service
  distribution and the connection list of the later entry (the last entry of that class),
  the key being present once.
\<close>

theorem duplicate_class_later_entry_wins:
  assumes "\<forall>c\<in>set (pre @ c1 # mid @ c2 # post). entry_ok pf name c"
    and "c_class c1 = c_class c2"
    and "\<forall>c\<in>set post. c_class c \<noteq> c_class c2"
  shows "\<exists>r sd cn.
           parse_customers pf (pre @ c1 # mid @ c2 # post) name = Inr r \<and>
           service_of pf c2 = Inr sd \<and> conns_of c2 name = Inr cn \<and>
           map_of (arrival r) (class_key (c_class c2)) = Some (arrival_of pf c2) \<and>
           map_of (service r) (class_key (c_class c2)) = Some sd \<and>
           map_of (connections r) (class_key (c_class c2)) = Some cn \<and>
           distinct (map fst (arrival r)) \<and> distinct (map fst (service r)) \<and>
           distinct (map fst (connections r))"
proof -
  let ?cs = "pre @ c1 # mid @ c2 # post"
  let ?key = "\<lambda>c. class_key (c_class c)"
  have split: "?cs = (pre @ c1 # mid) @ c2 # post" by simp
  have later: "\<forall>x\<in>set post. ?key x \<noteq> ?key c2"
    using assms(3) class_key_inj by blast
  have ok2: "entry_ok pf name c2" using assms(1) by simp
  then have s: "service_of pf c2 = Inr (projr (service_of pf c2))"
    and n: "conns_of c2 name = Inr (projr (conns_of c2 name))"
    by (simp_all add: entry_ok_def)
  have a: "map_of (dict_zip (map ?key ?cs) (map (arrival_of pf) ?cs)) (?key c2) =
           Some (arrival_of pf c2)"
    unfolding split by (rule dict_zip_last [OF later])
  have b: "map_of (dict_zip (map ?key ?cs) (map (\<lambda>c. projr (service_of pf c)) ?cs)) (?key c2) =
           Some (projr (service_of pf c2))"
    unfolding split by (rule dict_zip_last [OF later])
  have c: "map_of (dict_zip (map ?key ?cs) (map (\<lambda>c. projr (conns_of c name)) ?cs)) (?key c2) =
           Some (projr (conns_of c2 name))"
    unfolding split by (rule dict_zip_last [OF later])
  show ?thesis
    using parse_customers_ok [OF assms(1)] s n a b c
    by (simp add: dict_zip_distinct)
qed

subsection \<open>update_distributions\<close>

lemma merge_new_map_of:
  "distinct (map fst new) \<Longrightarrow>
   map_of (merge_new existing new n) k =
     (case map_of new k of
        None \<Rightarrow> map_of existing k
      | Some v \<Rightarrow>
          Some ((case map_of existing k of
                   None \<Rightarrow> replicate (n - 1) NoArrivals
                 | Some xs \<Rightarrow> xs) @ [v]))"
proof (induction new arbitrary: existing)
  case Nil
  show ?case by simp
next
  case (Cons p new)
  obtain nk v where p: "p = (nk, v)" by (cases p)
  from Cons.prems have d: "distinct (map fst new)" and nk: "nk \<notin> fst ` set new"
    by (auto simp: p)
  then have none: "map_of new nk = None" by (simp add: map_of_eq_None_iff)
  let ?ex = "case map_of existing nk of
               None \<Rightarrow> AList.update nk (replicate (n - 1) NoArrivals @ [v]) existing
             | Some xs \<Rightarrow> AList.update nk (xs @ [v]) existing"
  have ex: "map_of ?ex k' =
            (if k' = nk
             then Some ((case map_of existing nk of
                           None \<Rightarrow> replicate (n - 1) NoArrivals | Some xs \<Rightarrow> xs) @ [v])
             else map_of existing k')" for k'
    by (simp add: update_conv' split: option.splits)
  have "map_of (merge_new existing (p # new) n) k = map_of (merge_new ?ex new n) k"
    by (simp add: p)
  also have "\<dots> =
     (case map_of new k of
        None \<Rightarrow> map_of ?ex k
      | Some v \<Rightarrow>
          Some ((case map_of ?ex k of
                   None \<Rightarrow> replicate (n - 1) NoArrivals
                 | Some xs \<Rightarrow> xs) @ [v]))"
    by (rule Cons.IH [OF d])
  finally have step: "map_of (merge_new existing (p # new) n) k =
     (case map_of new k of
        None \<Rightarrow> map_of ?ex k
      | Some v \<Rightarrow>
          Some ((case map_of ?ex k of
                   None \<Rightarrow> replicate (n - 1) NoArrivals
                 | Some xs \<Rightarrow> xs) @ [v]))" .
  show ?case
  proof (cases "k = nk")
    case True
    then show ?thesis using step none by (simp add: p ex del: map_of_eq_None_iff)
  next
    case False
    have "map_of ?ex k = map_of existing k" using False by (simp only: ex if_False)
    moreover have "map_of (p # new) k = map_of new k" using False by (simp add: p)
    ultimately show ?thesis using step by (simp only:)
  qed
qed

lemma merge_new_keys:
  "fst ` set (merge_new existing new n) = fst ` set existing \<union> fst ` set new"
proof (induction new arbitrary: existing)
  case Nil
  show ?case by simp
next
  case (Cons p new)
  obtain nk v where p: "p = (nk, v)" by (cases p)
  show ?case unfolding p by (simp add: Cons.IH dom_update split: option.splits)
qed

lemma merge_new_distinct:
  "distinct (map fst existing) \<Longrightarrow> distinct (map fst (merge_new existing new n))"
proof (induction new arbitrary: existing)
  case Nil
  then show ?case by simp
next
  case (Cons p new)
  obtain nk v where p: "p = (nk, v)" by (cases p)
  show ?case unfolding p using Cons.prems
    by (auto intro!: Cons.IH distinct_update split: option.splits)
qed

lemma back_fill_map_of:
  "map_of (back_fill existing n) k =
     map_option (\<lambda>xs. if length xs \<noteq> n then xs @ [NoArrivals] else xs) (map_of existing k)"
  by (simp add: back_fill_def map_of_map)

lemma back_fill_keys: "map fst (back_fill existing n) = map fst existing"
  by (simp add: back_fill_def case_prod_beta)

lemma update_distributions_keys:
  "fst ` set (update_distributions existing new n) = fst ` set existing \<union> fst ` set new"
proof -
  have "fst ` set (update_distributions existing new n) =
        set (map fst (back_fill (merge_new existing new n) n))"
    by (simp add: update_distributions_def)
  then show ?thesis by (simp only: back_fill_keys set_map merge_new_keys)
qed

lemma update_distributions_distinct:
  "distinct (map fst existing) \<Longrightarrow> distinct (map fst (update_distributions existing new n))"
  by (simp add: update_distributions_def back_fill_keys merge_new_distinct)

lemma update_distributions_map_of:
  assumes "distinct (map fst new)"
  shows "map_of (update_distributions existing new n) k =
     (case map_of new k of
        None \<Rightarrow> map_option (\<lambda>xs. if length xs \<noteq> n then xs @ [NoArrivals] else xs) (map_of existing k)
      | Some v \<Rightarrow>
          (case map_of existing k of
             None \<Rightarrow> Some (if n = 0 then [v, NoArrivals] else replicate (n - 1) NoArrivals @ [v])
           | Some xs \<Rightarrow> Some (if Suc (length xs) \<noteq> n then xs @ [v, NoArrivals] else xs @ [v])))"
  by (auto simp add: update_distributions_def back_fill_map_of merge_new_map_of [OF assms]
      split: option.splits)

lemma update_distributions_step:
  assumes "distinct (map fst new)"
    and "\<forall>xs. map_of existing k = Some xs \<longrightarrow> length xs = n"
  shows "map_of (update_distributions existing new (Suc n)) k =
     (if map_of existing k = None \<and> map_of new k = None then None
      else Some ((case map_of existing k of None \<Rightarrow> replicate n NoArrivals | Some xs \<Rightarrow> xs) @
                 [value_at new k]))"
proof -
  note m = update_distributions_map_of [OF assms(1), of existing "Suc n" k]
  show ?thesis
  proof (cases "map_of existing k")
    case None
    note e = None
    show ?thesis
    proof (cases "map_of new k")
      case None
      then show ?thesis using e m by (simp del: map_of_eq_None_iff)
    next
      case (Some v)
      then show ?thesis using e m by (simp add: value_at_def del: map_of_eq_None_iff)
    qed
  next
    case (Some xs)
    note e = Some
    then have len: "length xs = n" using assms(2) by simp
    show ?thesis
    proof (cases "map_of new k")
      case None
      then show ?thesis using e len m by (simp add: value_at_def del: map_of_eq_None_iff)
    next
      case (Some v)
      then show ?thesis using e len m by (simp add: value_at_def del: map_of_eq_None_iff)
    qed
  qed
qed

subsection \<open>The loop over the stations\<close>

lemma merge_all_map_of:
  assumes "\<forall>new\<in>set news. distinct (map fst new)"
    and "\<forall>k xs. map_of existing k = Some xs \<longrightarrow> length xs = n"
  shows "map_of (merge_all existing news n) k =
     (if map_of existing k = None \<and> (\<forall>new\<in>set news. map_of new k = None) then None
      else Some ((case map_of existing k of None \<Rightarrow> replicate n NoArrivals | Some xs \<Rightarrow> xs) @
                 map (\<lambda>new. value_at new k) news))"
  using assms
proof (induction news arbitrary: existing n)
  case Nil
  show ?case by (cases "map_of existing k") (simp_all del: map_of_eq_None_iff)
next
  case (Cons new news)
  let ?ex = "update_distributions existing new (Suc n)"
  from Cons.prems have d: "distinct (map fst new)"
    and ds: "\<forall>new\<in>set news. distinct (map fst new)" by simp_all
  have step: "map_of ?ex k' =
     (if map_of existing k' = None \<and> map_of new k' = None then None
      else Some ((case map_of existing k' of None \<Rightarrow> replicate n NoArrivals | Some xs \<Rightarrow> xs) @
                 [value_at new k']))" for k'
    using Cons.prems(2) by (intro update_distributions_step [OF d]) blast
  have len: "\<forall>k xs. map_of ?ex k = Some xs \<longrightarrow> length xs = Suc n"
  proof (intro allI impI)
    fix k' xs assume a: "map_of ?ex k' = Some xs"
    show "length xs = Suc n"
    proof (cases "map_of existing k'")
      case None
      with a step [of k'] show ?thesis by (auto simp del: map_of_eq_None_iff split: if_splits)
    next
      case (Some ys)
      with Cons.prems(2) have "length ys = n" by blast
      with a step [of k'] Some show ?thesis by (auto simp del: map_of_eq_None_iff)
    qed
  qed
  have ih: "map_of (merge_all ?ex news (Suc n)) k =
     (if map_of ?ex k = None \<and> (\<forall>new\<in>set news. map_of new k = None) then None
      else Some ((case map_of ?ex k of None \<Rightarrow> replicate (Suc n) NoArrivals | Some xs \<Rightarrow> xs) @
                 map (\<lambda>new. value_at new k) news))"
    by (rule Cons.IH [OF ds len])
  have m: "merge_all existing (new # news) n = merge_all ?ex news (Suc n)" by simp
  show ?case
  proof (cases "map_of existing k = None \<and> map_of new k = None")
    case True
    then have e: "map_of ?ex k = None" using step [of k] by (simp del: map_of_eq_None_iff)
    have v: "value_at new k = NoArrivals" using True by (simp add: value_at_def del: map_of_eq_None_iff)
    have r: "replicate (Suc n) (NoArrivals :: 'a distribution) = replicate n NoArrivals @ [NoArrivals]"
      by (simp add: replicate_append_same)
    show ?thesis
      unfolding m ih e using True v r by (simp del: map_of_eq_None_iff replicate_Suc)
  next
    case False
    then have e: "map_of ?ex k =
        Some ((case map_of existing k of None \<Rightarrow> replicate n NoArrivals | Some xs \<Rightarrow> xs) @
              [value_at new k])"
      using step [of k] by (auto simp del: map_of_eq_None_iff)
    show ?thesis
      unfolding m ih e using False by (auto simp del: map_of_eq_None_iff)
  qed
qed

lemma merge_all_distinct:
  "distinct (map fst existing) \<Longrightarrow> distinct (map fst (merge_all existing news n))"
  by (induction news arbitrary: existing n) (simp_all add: update_distributions_distinct)

lemma process_station_Inr:
  assumes "process_station pf st s = Inr s'"
  shows "\<exists>nd. parse_station pf st = Inr nd \<and> s_name st \<notin> fst ` set (names_to_nodes s) \<and>
           current_node s' = Suc (current_node s) \<and>
           names_to_nodes s' = AList.update (s_name st) (Suc (current_node s)) (names_to_nodes s) \<and>
           servers_acc s' = servers_acc s @ [s_servers st] \<and>
           capacities_acc s' = capacities_acc s @ [s_capacity st] \<and>
           arrivals_acc s' =
             update_distributions (arrivals_acc s) (n_arrivals nd) (Suc (current_node s)) \<and>
           services_acc s' =
             update_distributions (services_acc s) (n_service nd) (Suc (current_node s)) \<and>
           connections_acc s' = update_connections (connections_acc s) (n_connections nd)"
proof (cases "parse_station pf st")
  case (Inl e)
  with assms show ?thesis by (simp add: process_station_def)
next
  case (Inr nd)
  then have nm: "n_name nd = s_name st" "n_servers nd = s_servers st" "n_capacity nd = s_capacity st"
    by (auto simp: parse_station_def split: sum.splits)
  from assms Inr show ?thesis
    by (auto simp: process_station_def Let_def nm split: if_splits)
qed

lemma station_loop_Inr:
  assumes "station_loop pf sts s = Inr s'"
  shows "\<exists>nds. map (parse_station pf) sts = map Inr nds \<and>
           current_node s' = current_node s + length sts \<and>
           fst ` set (names_to_nodes s') = fst ` set (names_to_nodes s) \<union> s_name ` set sts \<and>
           servers_acc s' = servers_acc s @ map s_servers sts \<and>
           capacities_acc s' = capacities_acc s @ map s_capacity sts \<and>
           arrivals_acc s' = merge_all (arrivals_acc s) (map n_arrivals nds) (current_node s) \<and>
           services_acc s' = merge_all (services_acc s) (map n_service nds) (current_node s) \<and>
           connections_acc s' = fold (\<lambda>nd acc. update_connections acc (n_connections nd)) nds (connections_acc s)"
  using assms
proof (induction sts arbitrary: s)
  case Nil
  then show ?case by simp
next
  case (Cons st sts)
  from Cons.prems obtain s1 where p: "process_station pf st s = Inr s1"
    and l: "station_loop pf sts s1 = Inr s'"
    by (auto split: sum.splits)
  from process_station_Inr [OF p] obtain nd where nd: "parse_station pf st = Inr nd"
    and s1: "current_node s1 = Suc (current_node s)"
      "names_to_nodes s1 = AList.update (s_name st) (Suc (current_node s)) (names_to_nodes s)"
      "servers_acc s1 = servers_acc s @ [s_servers st]"
      "capacities_acc s1 = capacities_acc s @ [s_capacity st]"
      "arrivals_acc s1 = update_distributions (arrivals_acc s) (n_arrivals nd) (Suc (current_node s))"
      "services_acc s1 = update_distributions (services_acc s) (n_service nd) (Suc (current_node s))"
      "connections_acc s1 = update_connections (connections_acc s) (n_connections nd)"
    by blast
  from Cons.IH [OF l] obtain nds where nds: "map (parse_station pf) sts = map Inr nds"
    and s': "current_node s' = current_node s1 + length sts"
      "fst ` set (names_to_nodes s') = fst ` set (names_to_nodes s1) \<union> s_name ` set sts"
      "servers_acc s' = servers_acc s1 @ map s_servers sts"
      "capacities_acc s' = capacities_acc s1 @ map s_capacity sts"
      "arrivals_acc s' = merge_all (arrivals_acc s1) (map n_arrivals nds) (current_node s1)"
      "services_acc s' = merge_all (services_acc s1) (map n_service nds) (current_node s1)"
      "connections_acc s' = fold (\<lambda>nd acc. update_connections acc (n_connections nd)) nds (connections_acc s1)"
    by blast
  have "map (parse_station pf) (st # sts) = map Inr (nd # nds)" using nd nds by simp
  moreover have "current_node s' = current_node s + length (st # sts)" using s'(1) s1(1) by simp
  moreover have "fst ` set (names_to_nodes s') = fst ` set (names_to_nodes s) \<union> s_name ` set (st # sts)"
    unfolding s'(2) s1(2) dom_update by auto
  moreover have "servers_acc s' = servers_acc s @ map s_servers (st # sts)" using s'(3) s1(3) by simp
  moreover have "capacities_acc s' = capacities_acc s @ map s_capacity (st # sts)" using s'(4) s1(4) by simp
  moreover have "arrivals_acc s' = merge_all (arrivals_acc s) (map n_arrivals (nd # nds)) (current_node s)"
    using s'(5) s1(1) s1(5) by simp
  moreover have "services_acc s' = merge_all (services_acc s) (map n_service (nd # nds)) (current_node s)"
    using s'(6) s1(1) s1(6) by simp
  moreover have "connections_acc s' =
      fold (\<lambda>nd acc. update_connections acc (n_connections nd)) (nd # nds) (connections_acc s)"
    using s'(7) s1(7) by simp
  ultimately show ?case by blast
qed

lemma parse_station_Inr:
  assumes "parse_station pf st = Inr nd"
  shows "distinct (map fst (n_arrivals nd))" and "distinct (map fst (n_service nd))"
    and "distinct (map fst (n_connections nd))"
    and "fst ` set (n_arrivals nd) = (\<lambda>c. class_key (c_class c)) ` set (s_customers st)"
    and "fst ` set (n_service nd) = (\<lambda>c. class_key (c_class c)) ` set (s_customers st)"
    and "fst ` set (n_connections nd) = (\<lambda>c. class_key (c_class c)) ` set (s_customers st)"
proof -
  from assms obtain r where r: "parse_customers pf (s_customers st) (s_name st) = Inr r"
    and nd: "n_arrivals nd = arrival r" "n_service nd = service r" "n_connections nd = connections r"
    by (auto simp: parse_station_def split: sum.splits)
  from r have ok: "\<forall>c\<in>set (s_customers st). entry_ok pf (s_name st) c"
    using parse_customers_Inr_iff by blast
  from parse_customers_ok [OF ok] r
  have "arrival r = dict_zip (map (\<lambda>c. class_key (c_class c)) (s_customers st))
                      (map (arrival_of pf) (s_customers st))"
    and "service r = dict_zip (map (\<lambda>c. class_key (c_class c)) (s_customers st))
                      (map (\<lambda>c. projr (service_of pf c)) (s_customers st))"
    and "connections r = dict_zip (map (\<lambda>c. class_key (c_class c)) (s_customers st))
                      (map (\<lambda>c. projr (conns_of c (s_name st))) (s_customers st))"
    by simp_all
  then show "distinct (map fst (n_arrivals nd))" and "distinct (map fst (n_service nd))"
    and "distinct (map fst (n_connections nd))"
    and "fst ` set (n_arrivals nd) = (\<lambda>c. class_key (c_class c)) ` set (s_customers st)"
    and "fst ` set (n_service nd) = (\<lambda>c. class_key (c_class c)) ` set (s_customers st)"
    and "fst ` set (n_connections nd) = (\<lambda>c. class_key (c_class c)) ` set (s_customers st)"
    unfolding nd by (simp_all add: dict_zip_distinct dict_zip_keys)
qed

lemma update_connections_keys:
  "fst ` set (update_connections existing new) = fst ` set existing \<union> fst ` set new"
proof (induction new arbitrary: existing)
  case Nil
  show ?case by simp
next
  case (Cons p new)
  obtain nk es where p: "p = (nk, es)" by (cases p)
  show ?case unfolding p by (simp add: Cons.IH dom_update split: option.splits)
qed

lemma fold_update_connections_keys:
  "fst ` set (fold (\<lambda>nd acc. update_connections acc (n_connections nd)) nds acc) =
     fst ` set acc \<union> (\<Union>nd\<in>set nds. fst ` set (n_connections nd))"
  by (induction nds arbitrary: acc) (auto simp: update_connections_keys)

lemma build_matrices_keys:
  "build_matrices names n cs ms = Inr ms' \<Longrightarrow> fst ` set ms' = fst ` set ms \<union> fst ` set cs"
proof (induction cs arbitrary: ms)
  case Nil
  then show ?case by simp
next
  case (Cons p cs)
  obtain key c where p: "p = (key, c)" by (cases p)
  from Cons.prems obtain m where "class_matrix names n c = Inr m"
    and "build_matrices names n cs (AList.update key m ms) = Inr ms'"
    by (auto simp: p split: sum.splits)
  then have "fst ` set ms' = fst ` set (AList.update key m ms) \<union> fst ` set cs"
    using Cons.IH by blast
  then show ?case by (auto simp: p dom_update)
qed

lemma build_params_Inr:
  assumes "build_params pf stations = Inr p"
  shows "\<exists>s. station_loop pf stations init_state = Inr s \<and>
             build_matrices (names_to_nodes s) (length stations) (connections_acc s) [] =
               Inr (Transition_matrices p) \<and>
             Arrival_distributions p = arrivals_acc s \<and>
             Service_distributions p = services_acc s \<and>
             Number_of_nodes p = length stations \<and>
             Number_of_servers p = servers_acc s \<and>
             Queue_capacities p = capacities_acc s"
  using assms by (auto simp: build_params_def split: sum.splits)

lemma build_params_sequences:
  assumes "build_params pf stations = Inr p"
  shows "\<exists>nds. map (parse_station pf) stations = map Inr nds \<and>
           distinct (map fst (Arrival_distributions p)) \<and>
           distinct (map fst (Service_distributions p)) \<and>
           (\<forall>k. map_of (Arrival_distributions p) k =
                  (if \<forall>nd\<in>set nds. map_of (n_arrivals nd) k = None then None
                   else Some (map (\<lambda>nd. value_at (n_arrivals nd) k) nds))) \<and>
           (\<forall>k. map_of (Service_distributions p) k =
                  (if \<forall>nd\<in>set nds. map_of (n_service nd) k = None then None
                   else Some (map (\<lambda>nd. value_at (n_service nd) k) nds))) \<and>
           fst ` set (Transition_matrices p) = (\<Union>nd\<in>set nds. fst ` set (n_connections nd))"
proof -
  from build_params_Inr [OF assms] obtain s where
    loop: "station_loop pf stations init_state = Inr s"
    and ms: "build_matrices (names_to_nodes s) (length stations) (connections_acc s) [] =
               Inr (Transition_matrices p)"
    and a: "Arrival_distributions p = arrivals_acc s"
    and b: "Service_distributions p = services_acc s"
    by blast
  from station_loop_Inr [OF loop] obtain nds where
    nds: "map (parse_station pf) stations = map Inr nds"
    and arr: "arrivals_acc s = merge_all [] (map n_arrivals nds) 0"
    and ser: "services_acc s = merge_all [] (map n_service nds) 0"
    and con: "connections_acc s = fold (\<lambda>nd acc. update_connections acc (n_connections nd)) nds []"
    by (auto simp: init_state_def)
  have parsed: "\<exists>st. parse_station pf st = Inr nd" if "nd \<in> set nds" for nd
  proof -
    from that have "Inr nd \<in> set (map (parse_station pf) stations)" unfolding nds by simp
    then show ?thesis by auto
  qed
  have da: "\<forall>new\<in>set (map n_arrivals nds). distinct (map fst new)"
    using parsed parse_station_Inr(1) by fastforce
  have ds: "\<forall>new\<in>set (map n_service nds). distinct (map fst new)"
    using parsed parse_station_Inr(2) by fastforce
  have e: "\<forall>k xs. map_of ([] :: (string \<times> 'a distribution list) list) k = Some xs \<longrightarrow> length xs = 0"
    by simp
  have A: "map_of (Arrival_distributions p) k =
             (if \<forall>nd\<in>set nds. map_of (n_arrivals nd) k = None then None
              else Some (map (\<lambda>nd. value_at (n_arrivals nd) k) nds))" for k
    unfolding a arr merge_all_map_of [OF da e] by (simp add: comp_def del: map_of_eq_None_iff)
  have B: "map_of (Service_distributions p) k =
             (if \<forall>nd\<in>set nds. map_of (n_service nd) k = None then None
              else Some (map (\<lambda>nd. value_at (n_service nd) k) nds))" for k
    unfolding b ser merge_all_map_of [OF ds e] by (simp add: comp_def del: map_of_eq_None_iff)
  have C: "fst ` set (Transition_matrices p) = (\<Union>nd\<in>set nds. fst ` set (n_connections nd))"
    using build_matrices_keys [OF ms] by (simp add: con fold_update_connections_keys)
  have D: "distinct (map fst (Arrival_distributions p))" "distinct (map fst (Service_distributions p))"
    unfolding a b arr ser by (simp_all add: merge_all_distinct)
  from nds A B C D show ?thesis by blast
qed

text \<open>
  Claim C3. For a current station index \<open>k\<close> of at least 1, dictionaries with distinct
  keys and incoming sequences of length \<open>k - 1\<close>, every sequence that
  \<open>update_distributions\<close> returns has length \<open>k\<close>; a key that is new gets \<open>k - 1\<close>
  placeholders and then its value, a key that the new station does not mention gets one
  trailing placeholder. After \<open>build_params\<close> has folded in all the stations, every arrival
  and service sequence has the length of the station list.
\<close>

theorem update_distributions_length:
  "(1 \<le> k \<and> distinct (map fst existing) \<and> distinct (map fst new) \<and>
    (\<forall>xs\<in>snd ` set existing. length xs = k - 1) \<longrightarrow>
      (\<forall>xs\<in>snd ` set (update_distributions existing new k). length xs = k) \<and>
      (\<forall>key v. map_of existing key = None \<and> map_of new key = Some v \<longrightarrow>
         map_of (update_distributions existing new k) key =
           Some (replicate (k - 1) NoArrivals @ [v])) \<and>
      (\<forall>key xs. map_of existing key = Some xs \<and> map_of new key = None \<longrightarrow>
         map_of (update_distributions existing new k) key = Some (xs @ [NoArrivals]))) \<and>
   (build_params pf stations = Inr p \<longrightarrow>
      (\<forall>xs\<in>snd ` set (Arrival_distributions p) \<union> snd ` set (Service_distributions p).
         length xs = length stations))"
proof (intro conjI impI)
  assume h: "1 \<le> k \<and> distinct (map fst existing) \<and> distinct (map fst new) \<and>
             (\<forall>xs\<in>snd ` set existing. length xs = k - 1)"
  then obtain n where k: "k = Suc n" by (cases k) auto
  from h have de: "distinct (map fst existing)" and dn: "distinct (map fst new)" by simp_all
  have len: "\<forall>xs. map_of existing key = Some xs \<longrightarrow> length xs = n" for key
  proof (intro allI impI)
    fix xs assume "map_of existing key = Some xs"
    then have "(key, xs) \<in> set existing" by (rule map_of_SomeD)
    then have "xs \<in> snd ` set existing" by force
    with h show "length xs = n" by (auto simp: k)
  qed
  note step = update_distributions_step [OF dn len]
  show "\<forall>xs\<in>snd ` set (update_distributions existing new k). length xs = k"
  proof
    fix xs assume "xs \<in> snd ` set (update_distributions existing new k)"
    then obtain key where "(key, xs) \<in> set (update_distributions existing new k)" by auto
    moreover have "distinct (map fst (update_distributions existing new k))"
      using de by (rule update_distributions_distinct)
    ultimately have m: "map_of (update_distributions existing new (Suc n)) key = Some xs"
      by (simp add: k)
    show "length xs = k"
    proof (cases "map_of existing key")
      case None
      with m step [of key] show ?thesis
        by (auto simp add: k simp del: map_of_eq_None_iff split: if_splits)
    next
      case (Some ys)
      with len have "length ys = n" by blast
      with m step [of key] Some show ?thesis by (auto simp add: k simp del: map_of_eq_None_iff)
    qed
  qed
  show "\<forall>key v. map_of existing key = None \<and> map_of new key = Some v \<longrightarrow>
         map_of (update_distributions existing new k) key =
           Some (replicate (k - 1) NoArrivals @ [v])"
    using step by (auto simp add: k value_at_def simp del: map_of_eq_None_iff)
  show "\<forall>key xs. map_of existing key = Some xs \<and> map_of new key = None \<longrightarrow>
         map_of (update_distributions existing new k) key = Some (xs @ [NoArrivals])"
    using step by (auto simp add: k value_at_def simp del: map_of_eq_None_iff)
next
  assume "build_params pf stations = Inr p"
  from build_params_sequences [OF this] obtain nds where
    nds: "map (parse_station pf) stations = map Inr nds"
    and da: "distinct (map fst (Arrival_distributions p))"
    and ds: "distinct (map fst (Service_distributions p))"
    and A: "\<And>k. map_of (Arrival_distributions p) k =
                  (if \<forall>nd\<in>set nds. map_of (n_arrivals nd) k = None then None
                   else Some (map (\<lambda>nd. value_at (n_arrivals nd) k) nds))"
    and B: "\<And>k. map_of (Service_distributions p) k =
                  (if \<forall>nd\<in>set nds. map_of (n_service nd) k = None then None
                   else Some (map (\<lambda>nd. value_at (n_service nd) k) nds))"
    by blast
  have l: "length nds = length stations" using nds by (metis length_map)
  show "\<forall>xs\<in>snd ` set (Arrival_distributions p) \<union> snd ` set (Service_distributions p).
         length xs = length stations"
  proof
    fix xs assume "xs \<in> snd ` set (Arrival_distributions p) \<union> snd ` set (Service_distributions p)"
    then consider key where "(key, xs) \<in> set (Arrival_distributions p)"
      | key where "(key, xs) \<in> set (Service_distributions p)" by auto
    then show "length xs = length stations"
    proof cases
      case 1
      then have "map_of (Arrival_distributions p) key = Some xs" using da by simp
      then show ?thesis using A [of key] l by (auto split: if_splits)
    next
      case 2
      then have "map_of (Service_distributions p) key = Some xs" using ds by simp
      then show ?thesis using B [of key] l by (auto split: if_splits)
    qed
  qed
qed

text \<open>
  Claim C6. When the build succeeds and a class is defined at station \<open>j\<close> but not at
  station \<open>i\<close>, the class is a key of the arrival sequences, of the service sequences and
  of the transition matrices, both sequences have one entry per station, and the entry of
  station \<open>i\<close> (index \<open>i\<close>, the node index minus one) is \<open>NoArrivals\<close> in both.
\<close>

theorem absent_class_is_NoArrivals:
  assumes "build_params pf stations = Inr p"
    and "i < length stations" and "j < length stations"
    and "c \<in> set (s_customers (stations ! j))"
    and "\<forall>c'\<in>set (s_customers (stations ! i)). c_class c' \<noteq> c_class c"
  shows "\<exists>as ss m.
           map_of (Arrival_distributions p) (class_key (c_class c)) = Some as \<and>
           map_of (Service_distributions p) (class_key (c_class c)) = Some ss \<and>
           map_of (Transition_matrices p) (class_key (c_class c)) = Some m \<and>
           length as = length stations \<and> length ss = length stations \<and>
           as ! i = NoArrivals \<and> ss ! i = NoArrivals"
proof -
  let ?key = "class_key (c_class c)"
  from build_params_sequences [OF assms(1)] obtain nds where
    nds: "map (parse_station pf) stations = map Inr nds"
    and A: "\<And>k. map_of (Arrival_distributions p) k =
                  (if \<forall>nd\<in>set nds. map_of (n_arrivals nd) k = None then None
                   else Some (map (\<lambda>nd. value_at (n_arrivals nd) k) nds))"
    and B: "\<And>k. map_of (Service_distributions p) k =
                  (if \<forall>nd\<in>set nds. map_of (n_service nd) k = None then None
                   else Some (map (\<lambda>nd. value_at (n_service nd) k) nds))"
    and C: "fst ` set (Transition_matrices p) = (\<Union>nd\<in>set nds. fst ` set (n_connections nd))"
    by blast
  have l: "length nds = length stations" using nds by (metis length_map)
  have nth: "parse_station pf (stations ! n) = Inr (nds ! n)" if "n < length stations" for n
  proof -
    have "map (parse_station pf) stations ! n = map Inr nds ! n" by (simp only: nds)
    then show ?thesis using that l by simp
  qed
  note kaj = parse_station_Inr(4) [OF nth [OF assms(3)]]
  note ksj = parse_station_Inr(5) [OF nth [OF assms(3)]]
  note kcj = parse_station_Inr(6) [OF nth [OF assms(3)]]
  note kai = parse_station_Inr(4) [OF nth [OF assms(2)]]
  note ksi = parse_station_Inr(5) [OF nth [OF assms(2)]]
  have kj: "?key \<in> (\<lambda>c. class_key (c_class c)) ` set (s_customers (stations ! j))"
    using assms(4) by (rule imageI)
  have ki: "?key \<notin> (\<lambda>c. class_key (c_class c)) ` set (s_customers (stations ! i))"
  proof
    assume "?key \<in> (\<lambda>c. class_key (c_class c)) ` set (s_customers (stations ! i))"
    then obtain c' where c': "c' \<in> set (s_customers (stations ! i))"
      and e: "class_key (c_class c) = class_key (c_class c')" by (rule imageE)
    from e have "c_class c' = c_class c" by (rule class_key_inj [symmetric])
    with assms(5) c' show False by blast
  qed
  have ndj: "nds ! j \<in> set nds" using assms(3) l by simp
  have aj: "map_of (n_arrivals (nds ! j)) ?key \<noteq> None"
    unfolding map_of_eq_None_iff kaj using kj by simp
  have sj: "map_of (n_service (nds ! j)) ?key \<noteq> None"
    unfolding map_of_eq_None_iff ksj using kj by simp
  have cj: "?key \<in> fst ` set (n_connections (nds ! j))" unfolding kcj by (rule kj)
  have ai: "map_of (n_arrivals (nds ! i)) ?key = None"
    unfolding map_of_eq_None_iff kai by (rule ki)
  have si: "map_of (n_service (nds ! i)) ?key = None"
    unfolding map_of_eq_None_iff ksi by (rule ki)
  have "\<not> (\<forall>nd\<in>set nds. map_of (n_arrivals nd) ?key = None)"
  proof
    assume "\<forall>nd\<in>set nds. map_of (n_arrivals nd) ?key = None"
    then have "map_of (n_arrivals (nds ! j)) ?key = None" using ndj by (rule bspec)
    with aj show False by (rule notE)
  qed
  then have a: "map_of (Arrival_distributions p) ?key =
      Some (map (\<lambda>nd. value_at (n_arrivals nd) ?key) nds)"
    using A [of ?key] by (simp only: if_False)
  have "\<not> (\<forall>nd\<in>set nds. map_of (n_service nd) ?key = None)"
  proof
    assume "\<forall>nd\<in>set nds. map_of (n_service nd) ?key = None"
    then have "map_of (n_service (nds ! j)) ?key = None" using ndj by (rule bspec)
    with sj show False by (rule notE)
  qed
  then have b: "map_of (Service_distributions p) ?key =
      Some (map (\<lambda>nd. value_at (n_service nd) ?key) nds)"
    using B [of ?key] by (simp only: if_False)
  have "?key \<in> fst ` set (Transition_matrices p)" unfolding C using ndj cj by blast
  then have "map_of (Transition_matrices p) ?key \<noteq> None" by (simp only: map_of_eq_None_iff not_not)
  then obtain m where m: "map_of (Transition_matrices p) ?key = Some m" by blast
  have il: "i < length nds" using assms(2) l by simp
  have vi: "map (\<lambda>nd. value_at (n_arrivals nd) ?key) nds ! i = NoArrivals"
    using ai by (simp only: nth_map [OF il] value_at_def option.case)
  have wi: "map (\<lambda>nd. value_at (n_service nd) ?key) nds ! i = NoArrivals"
    using si by (simp only: nth_map [OF il] value_at_def option.case)
  have la: "length (map (\<lambda>nd. value_at (n_arrivals nd) ?key) nds) = length stations"
    and lb: "length (map (\<lambda>nd. value_at (n_service nd) ?key) nds) = length stations"
    using l by simp_all
  show ?thesis
    apply (intro exI conjI)
          apply (rule a)
         apply (rule b)
        apply (rule m)
       apply (rule la)
      apply (rule lb)
     apply (rule vi)
    apply (rule wi)
    done
qed

subsection \<open>Errors of the build\<close>

lemma station_loop_append:
  "station_loop pf (xs @ ys) s =
     (case station_loop pf xs s of Inl e \<Rightarrow> Inl e | Inr s' \<Rightarrow> station_loop pf ys s')"
  by (induction xs arbitrary: s) (auto split: sum.splits)

lemma parse_station_name: "parse_station pf st = Inr nd \<Longrightarrow> n_name nd = s_name st"
  by (auto simp: parse_station_def split: sum.splits)

lemma process_station_ok:
  assumes "\<not> isl (parse_station pf st)" and "s_name st \<notin> fst ` set (names_to_nodes s)"
  shows "\<exists>s'. process_station pf st s = Inr s' \<and>
              names_to_nodes s' = AList.update (s_name st) (Suc (current_node s)) (names_to_nodes s)"
proof -
  from assms(1) obtain nd where nd: "parse_station pf st = Inr nd"
    by (cases "parse_station pf st") auto
  show ?thesis using assms(2) by (simp add: process_station_def nd parse_station_name [OF nd])
qed

lemma process_station_duplicate:
  assumes "\<not> isl (parse_station pf st)" and "s_name st \<in> fst ` set (names_to_nodes s)"
  shows "process_station pf st s = Inl (DuplicateStationName (s_name st))"
proof -
  from assms(1) obtain nd where nd: "parse_station pf st = Inr nd"
    by (cases "parse_station pf st") auto
  show ?thesis using assms(2) by (simp add: process_station_def nd parse_station_name [OF nd])
qed

lemma station_loop_ok:
  assumes "\<forall>st\<in>set sts. \<not> isl (parse_station pf st)"
    and "distinct (map s_name sts)"
    and "s_name ` set sts \<inter> fst ` set (names_to_nodes s) = {}"
  shows "\<exists>s'. station_loop pf sts s = Inr s'"
  using assms
proof (induction sts arbitrary: s)
  case Nil
  show ?case by simp
next
  case (Cons st sts)
  from Cons.prems have p: "\<not> isl (parse_station pf st)"
    and fresh: "s_name st \<notin> fst ` set (names_to_nodes s)" by auto
  from process_station_ok [OF p fresh] obtain s1 where
    s1: "process_station pf st s = Inr s1"
    and n1: "names_to_nodes s1 = AList.update (s_name st) (Suc (current_node s)) (names_to_nodes s)"
    by blast
  have "s_name ` set sts \<inter> fst ` set (names_to_nodes s1) = {}"
    unfolding n1 dom_update using Cons.prems(2,3) by auto
  moreover have "\<forall>st\<in>set sts. \<not> isl (parse_station pf st)" using Cons.prems(1) by simp
  moreover have "distinct (map s_name sts)" using Cons.prems(2) by simp
  ultimately obtain s' where "station_loop pf sts s1 = Inr s'" using Cons.IH by blast
  then show ?case using s1 by simp
qed

lemma station_loop_distinct:
  assumes "station_loop pf sts s = Inr s'"
  shows "distinct (map s_name sts) \<and> s_name ` set sts \<inter> fst ` set (names_to_nodes s) = {}"
  using assms
proof (induction sts arbitrary: s)
  case Nil
  show ?case by simp
next
  case (Cons st sts)
  from Cons.prems obtain s1 where p: "process_station pf st s = Inr s1"
    and l: "station_loop pf sts s1 = Inr s'"
    by (auto split: sum.splits)
  from process_station_Inr [OF p] have fresh: "s_name st \<notin> fst ` set (names_to_nodes s)"
    and n1: "names_to_nodes s1 = AList.update (s_name st) (Suc (current_node s)) (names_to_nodes s)"
    by blast+
  from Cons.IH [OF l] have d: "distinct (map s_name sts)"
    and i: "s_name ` set sts \<inter> fst ` set (names_to_nodes s1) = {}" by blast+
  from i have "s_name ` set sts \<inter> ({s_name st} \<union> fst ` set (names_to_nodes s)) = {}"
    unfolding n1 dom_update .
  then show ?case using d fresh by auto
qed

lemma process_station_parse_error:
  "parse_station pf st = Inl e \<Longrightarrow> process_station pf st s = Inl e"
  by (simp add: process_station_def)

text \<open>
  Claim C8, as amended. Each station is parsed before its name is looked up. When the
  stations before a station are parsed without error and have distinct names, and that
  station repeats one of their names and itself parses without error, the loop over the
  stations stops there with the duplicate-name error, whatever the later stations and the
  connections are, and \<open>build_params\<close> returns that error: no matrix is built. When that
  station does not parse, the loop stops there with the error of its parse. A station list
  in which a name repeats never yields a parameter model.
\<close>

theorem duplicate_station_name_fails:
  "((\<forall>st\<in>set (pre @ [d]). \<not> isl (parse_station pf st)) \<and> distinct (map s_name pre) \<and>
    s_name d \<in> s_name ` set pre \<longrightarrow>
      station_loop pf (pre @ d # post) init_state = Inl (DuplicateStationName (s_name d)) \<and>
      build_params pf (pre @ d # post) = Inl (DuplicateStationName (s_name d))) \<and>
   ((\<forall>st\<in>set pre. \<not> isl (parse_station pf st)) \<and> distinct (map s_name pre) \<and>
    parse_station pf d = Inl e \<longrightarrow>
      station_loop pf (pre @ d # post) init_state = Inl e \<and>
      build_params pf (pre @ d # post) = Inl e) \<and>
   (\<not> distinct (map s_name stations) \<longrightarrow> isl (build_params pf stations))"
proof (intro conjI impI)
  assume h: "(\<forall>st\<in>set (pre @ [d]). \<not> isl (parse_station pf st)) \<and> distinct (map s_name pre) \<and>
             s_name d \<in> s_name ` set pre"
  then have ok: "\<forall>st\<in>set pre. \<not> isl (parse_station pf st)"
    and dp: "\<not> isl (parse_station pf d)" and dist: "distinct (map s_name pre)"
    and dup: "s_name d \<in> s_name ` set pre" by simp_all
  have "s_name ` set pre \<inter> fst ` set (names_to_nodes (init_state :: 'a loop_state)) = {}"
    by (simp add: init_state_def)
  from station_loop_ok [OF ok dist this] obtain s where s: "station_loop pf pre init_state = Inr s"
    by blast
  from station_loop_Inr [OF s]
  have "fst ` set (names_to_nodes s) = fst ` set (names_to_nodes (init_state :: 'a loop_state)) \<union> s_name ` set pre"
    by blast
  then have "s_name d \<in> fst ` set (names_to_nodes s)" using dup by (simp add: init_state_def)
  then have "process_station pf d s = Inl (DuplicateStationName (s_name d))"
    by (rule process_station_duplicate [OF dp])
  then show loop: "station_loop pf (pre @ d # post) init_state = Inl (DuplicateStationName (s_name d))"
    by (simp add: station_loop_append s)
  then show "build_params pf (pre @ d # post) = Inl (DuplicateStationName (s_name d))"
    by (simp add: build_params_def)
next
  assume h: "(\<forall>st\<in>set pre. \<not> isl (parse_station pf st)) \<and> distinct (map s_name pre) \<and>
             parse_station pf d = Inl e"
  then have ok: "\<forall>st\<in>set pre. \<not> isl (parse_station pf st)"
    and dist: "distinct (map s_name pre)" and de: "parse_station pf d = Inl e" by simp_all
  have "s_name ` set pre \<inter> fst ` set (names_to_nodes (init_state :: 'a loop_state)) = {}"
    by (simp add: init_state_def)
  from station_loop_ok [OF ok dist this] obtain s where s: "station_loop pf pre init_state = Inr s"
    by blast
  have "process_station pf d s = Inl e" using de by (rule process_station_parse_error)
  then show loop: "station_loop pf (pre @ d # post) init_state = Inl e"
    by (simp add: station_loop_append s)
  then show "build_params pf (pre @ d # post) = Inl e"
    by (simp add: build_params_def)
next
  assume nd: "\<not> distinct (map s_name stations)"
  show "isl (build_params pf stations)"
  proof (rule ccontr)
    assume "\<not> isl (build_params pf stations)"
    then obtain p where "build_params pf stations = Inr p"
      by (cases "build_params pf stations") auto
    from build_params_Inr [OF this] obtain s where "station_loop pf stations init_state = Inr s"
      by blast
    from station_loop_distinct [OF this] nd show False by blast
  qed
qed


lemma arrival_fails_NoArrivals: "arrival_fails pf c \<Longrightarrow> arrival_of pf c = NoArrivals"
  by (auto simp: arrival_fails_def arrival_of_def split: option.splits sum.splits)








subsection \<open>The statements at concrete inputs\<close>

lemma two_class_network_params:
  "build_params example_float two_class_network = Inr two_class_params"
  by (simp add: eval_defs)

lemma class_key_1: "class_key 1 = ''Class 1''"
  by (simp add: class_key_def digits.simps)

lemma silent_entry_ok: "entry_ok example_float ''A'' silent_entry"
  by (simp add: entry_ok_def eval_defs)

lemma customer_1_ok: "entry_ok example_float ''A'' (customer_1 None)"
  by (simp add: entry_ok_def eval_defs)


lemma silent_entry_arrival: "arrival_fails example_float silent_entry"
  by (simp add: arrival_fails_def eval_defs)

theorem update_distributions_length_witness:
  "map_of (update_distributions [(''Class 1'', [NoArrivals])]
             [(''Class 2'', Dist ''Exponential'' [2::real])] 2) ''Class 2'' =
     Some [NoArrivals, Dist ''Exponential'' [2]] \<and>
   map_of (update_distributions [(''Class 1'', [NoArrivals])]
             [(''Class 2'', Dist ''Exponential'' [2::real])] 2) ''Class 1'' =
     Some [NoArrivals, NoArrivals] \<and>
   list_all (\<lambda>xs. length xs = 2)
     (map snd (update_distributions [(''Class 1'', [NoArrivals])]
                 [(''Class 2'', Dist ''Exponential'' [2::real])] 2)) \<and>
   list_all (\<lambda>xs. length xs = length two_class_network)
     (map snd (Arrival_distributions two_class_params) @
      map snd (Service_distributions two_class_params))"
proof -
  let ?ex = "[(''Class 1'', [NoArrivals :: real distribution])]"
  let ?new = "[(''Class 2'', Dist ''Exponential'' [2::real])]"
  note t = update_distributions_length
             [of 2 ?ex ?new example_float two_class_network two_class_params]
  have h: "1 \<le> (2::nat) \<and> distinct (map fst ?ex) \<and> distinct (map fst ?new) \<and>
           (\<forall>xs\<in>snd ` set ?ex. length xs = 2 - 1)" by simp
  have e1: "map_of ?ex ''Class 2'' = None \<and> map_of ?new ''Class 2'' = Some (Dist ''Exponential'' [2])"
    by simp
  have e2: "map_of ?ex ''Class 1'' = Some [NoArrivals] \<and> map_of ?new ''Class 1'' = None"
    by simp
  note t1 = t [THEN conjunct1, THEN mp, OF h]
  have a: "\<forall>xs\<in>snd ` set (update_distributions ?ex ?new 2). length xs = 2"
    by (rule t1 [THEN conjunct1])
  have b: "map_of (update_distributions ?ex ?new 2) ''Class 2'' =
      Some (replicate (2 - 1) NoArrivals @ [Dist ''Exponential'' [2]])"
    by (rule t1 [THEN conjunct2, THEN conjunct1, THEN spec, THEN spec, THEN mp, OF e1])
  have c: "map_of (update_distributions ?ex ?new 2) ''Class 1'' =
      Some ([NoArrivals] @ [NoArrivals])"
    by (rule t1 [THEN conjunct2, THEN conjunct2, THEN spec, THEN spec, THEN mp, OF e2])
  have d: "\<forall>xs\<in>snd ` set (Arrival_distributions two_class_params) \<union>
                 snd ` set (Service_distributions two_class_params).
             length xs = length two_class_network"
    by (rule t [THEN conjunct2, THEN mp, OF two_class_network_params])
  from a have a': "list_all (\<lambda>xs. length xs = 2) (map snd (update_distributions ?ex ?new 2))"
    by (simp add: list_all_iff)
  from d have d': "list_all (\<lambda>xs. length xs = length two_class_network)
     (map snd (Arrival_distributions two_class_params) @
      map snd (Service_distributions two_class_params))"
    by (simp only: list_all_iff set_append set_map)
  from b have b': "map_of (update_distributions ?ex ?new 2) ''Class 2'' =
      Some [NoArrivals, Dist ''Exponential'' [2]]" by (simp add: numeral_2_eq_2)
  from c have c': "map_of (update_distributions ?ex ?new 2) ''Class 1'' =
      Some [NoArrivals, NoArrivals]" by simp
  from b' c' a' d' show ?thesis by (intro conjI)
qed

theorem absent_class_is_NoArrivals_witness:
  "\<exists>as ss m.
     map_of (Arrival_distributions two_class_params) (class_key 2) = Some as \<and>
     map_of (Service_distributions two_class_params) (class_key 2) = Some ss \<and>
     map_of (Transition_matrices two_class_params) (class_key 2) = Some m \<and>
     length as = length two_class_network \<and> length ss = length two_class_network \<and>
     as ! 0 = NoArrivals \<and> ss ! 0 = NoArrivals"
proof -
  have i: "0 < length two_class_network" and j: "1 < length two_class_network"
    by (simp_all add: two_class_network_def)
  have c: "customer_2 \<in> set (s_customers (two_class_network ! 1))"
    by (simp add: two_class_network_def station_of_def)
  have a: "\<forall>c'\<in>set (s_customers (two_class_network ! 0)). c_class c' \<noteq> c_class customer_2"
    by (simp add: two_class_network_def station_of_def customer_1_def customer_2_def)
  have k: "c_class customer_2 = 2" by (simp add: customer_2_def)
  from absent_class_is_NoArrivals [OF two_class_network_params i j c a]
  show ?thesis unfolding k .
qed

theorem duplicate_class_later_entry_wins_witness:
  "\<exists>r sd cn.
     parse_customers example_float [customer_1 None, silent_entry] ''A'' = Inr r \<and>
     service_of example_float silent_entry = Inr sd \<and> conns_of silent_entry ''A'' = Inr cn \<and>
     map_of (arrival r) ''Class 1'' = Some NoArrivals \<and>
     map_of (service r) ''Class 1'' = Some sd \<and>
     map_of (connections r) ''Class 1'' = Some cn \<and>
     distinct (map fst (arrival r)) \<and> distinct (map fst (service r)) \<and>
     distinct (map fst (connections r))"
proof -
  have ok: "\<forall>c\<in>set ([] @ customer_1 None # [] @ silent_entry # []). entry_ok example_float ''A'' c"
    using silent_entry_ok customer_1_ok by simp
  have same: "c_class (customer_1 None) = c_class silent_entry"
    by (simp add: customer_1_def silent_entry_def)
  have later: "\<forall>c\<in>set []. c_class c \<noteq> c_class silent_entry" by simp
  have k: "class_key (c_class silent_entry) = ''Class 1''"
    by (simp add: silent_entry_def class_key_1)
  have a: "arrival_of example_float silent_entry = NoArrivals"
    using silent_entry_arrival by (rule arrival_fails_NoArrivals)
  from duplicate_class_later_entry_wins [OF ok same later]
  show ?thesis unfolding k a by simp
qed

theorem duplicate_station_name_fails_witness:
  "station_loop example_float
     [station_of ''A'' [customer_1 None], station_of ''A'' [], station_of ''B'' [unserved_entry]]
     init_state = Inl (DuplicateStationName ''A'') \<and>
   build_params example_float
     [station_of ''A'' [customer_1 None], station_of ''A'' [], station_of ''B'' [unserved_entry]] =
     Inl (DuplicateStationName ''A'') \<and>
   station_loop example_float
     [station_of ''A'' [customer_1 None], station_of ''A'' [unserved_entry], station_of ''B'' []]
     init_state = Inl (ArgumentCount ''Exponential'' 1 0) \<and>
   isl (build_params example_float [station_of ''A'' [], station_of ''A'' []])"
proof -
  let ?pre = "[station_of ''A'' [customer_1 None]]"
  let ?d = "station_of ''A'' []"
  let ?post = "[station_of ''B'' [unserved_entry]]"
  let ?d' = "station_of ''A'' [unserved_entry]"
  let ?post' = "[station_of ''B'' []]"
  have p1: "\<not> isl (parse_station example_float (station_of ''A'' [customer_1 None]))"
    by (simp add: eval_defs)
  have p2: "\<not> isl (parse_station example_float (station_of ''A'' []))"
    by (simp add: eval_defs)
  have p3: "parse_station example_float ?d' = Inl (ArgumentCount ''Exponential'' 1 0)"
    by (simp add: eval_defs)
  have h: "(\<forall>st\<in>set (?pre @ [?d]). \<not> isl (parse_station example_float st)) \<and>
           distinct (map s_name ?pre) \<and> s_name ?d \<in> s_name ` set ?pre"
    using p1 p2 by (simp add: station_of_def)
  have h': "(\<forall>st\<in>set ?pre. \<not> isl (parse_station example_float st)) \<and>
           distinct (map s_name ?pre) \<and>
           parse_station example_float ?d' = Inl (ArgumentCount ''Exponential'' 1 0)"
    using p1 p3 by simp
  have n: "\<not> distinct (map s_name [station_of ''A'' [], station_of ''A'' []])"
    by (simp add: station_of_def)
  have nm: "s_name ?d = ''A''" by (simp add: station_of_def)
  note t = duplicate_station_name_fails
             [of ?pre ?d example_float ?post _ "[station_of ''A'' [], station_of ''A'' []]"]
  note t' = duplicate_station_name_fails
             [of ?pre ?d' example_float ?post' "ArgumentCount ''Exponential'' 1 0"]
  have "station_loop example_float (?pre @ ?d # ?post) init_state =
                   Inl (DuplicateStationName (s_name ?d)) \<and>
                 build_params example_float (?pre @ ?d # ?post) =
                   Inl (DuplicateStationName (s_name ?d))"
    by (rule t [THEN conjunct1, THEN mp, OF h])
  moreover have "station_loop example_float (?pre @ ?d' # ?post') init_state =
                   Inl (ArgumentCount ''Exponential'' 1 0) \<and>
                 build_params example_float (?pre @ ?d' # ?post') =
                   Inl (ArgumentCount ''Exponential'' 1 0)"
    by (rule t' [THEN conjunct2, THEN conjunct1, THEN mp, OF h'])
  moreover have "isl (build_params example_float [station_of ''A'' [], station_of ''A'' []])"
    by (rule t [THEN conjunct2, THEN conjunct2, THEN mp, OF n])
  ultimately show ?thesis unfolding nm by simp
qed

text \<open>
  Claim C8 as it is stated fails: the second station repeats the name A and its service
  specification lacks its argument. The station is parsed before its name is looked up, so
  the build fails with the argument-count error and not with the duplicate-name error.
\<close>

theorem repeated_name_parse_error_first:
  "map s_name repeated_unserved_network = [''A'', ''A''] \<and>
   build_params example_float repeated_unserved_network =
     Inl (ArgumentCount ''Exponential'' 1 0) \<and>
   build_params example_float repeated_unserved_network \<noteq> Inl (DuplicateStationName ''A'')"
  by (simp add: eval_defs repeated_unserved_network_def)


end
